theory Spec2Isabelle
  imports Main "HOL-Library.Log_Nat"
begin

section \<open>Python dictionaries\<close>

text \<open>
  A Python \<open>dict[str, int]\<close> is an association list in insertion order. A dictionary has
  no repeated key; the predicate \<open>dict_wf\<close> says so. \<open>dict_get d k v\<close> is \<open>d.get(k, v)\<close> and
  \<open>dict_set k v d\<close> is the assignment \<open>d[k] = v\<close>: an existing key keeps its position, a new
  key goes to the end.
\<close>

type_synonym pydict = "(string \<times> int) list"

definition dict_wf :: "pydict \<Rightarrow> bool" where
  "dict_wf d = distinct (map fst d)"

definition dict_get :: "pydict \<Rightarrow> string \<Rightarrow> int \<Rightarrow> int" where
  "dict_get d k dflt = (case map_of d k of None \<Rightarrow> dflt | Some v \<Rightarrow> v)"

fun dict_set :: "string \<Rightarrow> int \<Rightarrow> pydict \<Rightarrow> pydict" where
  "dict_set k v [] = [(k, v)]"
| "dict_set k v ((k', v') # d) =
     (if k' = k then (k, v) # d else (k', v') # dict_set k v d)"

section \<open>The data model of \<open>ai_agent_load_balancer.py\<close>\<close>

text \<open>
  \<open>Task\<close> and \<open>AIAgentLoadBalancer\<close> are dataclasses. Of \<open>current_workload\<close> the core reads
  one entry, \<open>current_workload["auto_scaling_ready"]\<close>, through \<open>bool(...)\<close>: the field
  \<open>auto_scaling_ready\<close> holds the truth value of that entry, or \<open>None\<close> when the key is
  absent (the subscript then raises \<open>KeyError\<close>). Every task of the queue is an object of
  its own, as \<open>assign_task\<close> creates them. The clock \<open>datetime.now().isoformat()\<close> is an
  argument \<open>now\<close> of the operations that read it.
\<close>

record task =
  name :: string
  agents :: pydict
  start_time :: string
  status :: string
  end_time :: "string option"

record balancer =
  agent_capacity :: pydict
  auto_scaling_ready :: "bool option"
  agent_allocation :: pydict
  task_queue :: "task list"
  completed_tasks :: "task list"

datatype py_error = KeyError | OverflowError | ValueError | ZeroDivisionError

text \<open>\<open>__post_init__\<close>, with the default empty task lists.\<close>

definition post_init :: "pydict \<Rightarrow> bool option \<Rightarrow> balancer" where
  "post_init capacity ready =
     \<lparr>agent_capacity = capacity, auto_scaling_ready = ready,
      agent_allocation = map (\<lambda>(k, v). (k, 0)) capacity,
      task_queue = [], completed_tasks = []\<rparr>"

section \<open>Capacity accounting\<close>

definition get_total_capacity :: "balancer \<Rightarrow> int" where
  "get_total_capacity s = sum_list (map snd (agent_capacity s))"

definition get_available_agents :: "balancer \<Rightarrow> string \<Rightarrow> int" where
  "get_available_agents s agent_type =
     (let total = dict_get (agent_capacity s) agent_type 0;
          allocated = dict_get (agent_allocation s) agent_type 0
      in max 0 (total - allocated))"

definition allocate_agent :: "balancer \<Rightarrow> string \<Rightarrow> int \<Rightarrow> bool \<times> balancer" where
  "allocate_agent s agent_type count =
     (let available = get_available_agents s agent_type
      in if available \<ge> count
         then (True, s\<lparr>agent_allocation :=
                 dict_set agent_type (dict_get (agent_allocation s) agent_type 0 + count)
                   (agent_allocation s)\<rparr>)
         else (False, s))"

definition release_agent :: "balancer \<Rightarrow> string \<Rightarrow> int \<Rightarrow> balancer" where
  "release_agent s agent_type count =
     s\<lparr>agent_allocation :=
         dict_set agent_type (max 0 (dict_get (agent_allocation s) agent_type 0 - count))
           (agent_allocation s)\<rparr>"

section \<open>Task assignment and completion\<close>

text \<open>The loop of \<open>assign_task\<close> over \<open>required_agents.items()\<close>; the result of
  \<open>allocate_agent\<close> is dropped, as in the source.\<close>

fun allocate_loop :: "pydict \<Rightarrow> balancer \<Rightarrow> balancer" where
  "allocate_loop [] s = s"
| "allocate_loop ((agent_type, count) # rest) s =
     allocate_loop rest (snd (allocate_agent s agent_type count))"

definition assign_task :: "balancer \<Rightarrow> string \<Rightarrow> pydict \<Rightarrow> string \<Rightarrow> bool \<times> balancer" where
  "assign_task s task_name required_agents now =
     (let can_allocate =
            list_all (\<lambda>(agent_type, count). get_available_agents s agent_type \<ge> count)
              required_agents
      in if \<not> can_allocate then (False, s)
         else
           let s' = allocate_loop required_agents s;
               t = \<lparr>name = task_name, agents = required_agents, start_time = now,
                    status = ''in_progress'', end_time = None\<rparr>
           in (True, s'\<lparr>task_queue := task_queue s' @ [t]\<rparr>))"

text \<open>The loop of \<open>complete_task\<close> over \<open>task.agents.items()\<close>.\<close>

fun release_loop :: "pydict \<Rightarrow> balancer \<Rightarrow> balancer" where
  "release_loop [] s = s"
| "release_loop ((agent_type, count) # rest) s =
     release_loop rest (release_agent s agent_type count)"

text \<open>
  \<open>complete_task\<close> takes the first task of the queue with the name. It sets the status and
  the end time of that object, which is still in the queue, appends it to
  \<open>completed_tasks\<close>, and calls \<open>task_queue.remove(task)\<close>, which removes the first element
  equal to the task field by field (a dataclass compares by fields). \<open>mark_first\<close> is the
  queue after the two field assignments. The tasks before the one found have another
  name, so none of them is equal to it, whatever their other fields hold.
\<close>

fun mark_first :: "string \<Rightarrow> string \<Rightarrow> task list \<Rightarrow> task list" where
  "mark_first task_name now [] = []"
| "mark_first task_name now (t # ts) =
     (if name t = task_name
      then t\<lparr>status := ''completed'', end_time := Some now\<rparr> # ts
      else t # mark_first task_name now ts)"

definition complete_task :: "balancer \<Rightarrow> string \<Rightarrow> string \<Rightarrow> balancer" where
  "complete_task s task_name now =
     (case find (\<lambda>t. name t = task_name) (task_queue s) of
        None \<Rightarrow> s
      | Some t \<Rightarrow>
          let s' = release_loop (agents t) s;
              t' = t\<lparr>status := ''completed'', end_time := Some now\<rparr>
          in s'\<lparr>completed_tasks := completed_tasks s' @ [t'],
                task_queue := remove1 t' (mark_first task_name now (task_queue s'))\<rparr>)"

text \<open>The allocated value and the capacity of a pool, absent entries read as 0.\<close>

definition allocated_of :: "balancer \<Rightarrow> string \<Rightarrow> int" where
  "allocated_of s p = dict_get (agent_allocation s) p 0"

definition capacity_of :: "balancer \<Rightarrow> string \<Rightarrow> int" where
  "capacity_of s p = dict_get (agent_capacity s) p 0"

section \<open>Python floats\<close>

text \<open>
  A Python float is an IEEE 754 binary64 number. The finite ones are the rationals
  \<open>m * 2^e\<close> with \<open>\<bar>m\<bar> < 2^53\<close> and \<open>-1074 \<le> e\<close>, of magnitude below \<open>2^1024\<close>; the model
  writes them \<open>Fin x\<close> and does not tell \<open>-0.0\<close> from \<open>0.0\<close> (the source compares floats and
  converts them with \<open>int\<close>, which treat both alike). Every operation computes the exact
  result and rounds it to the nearest float, a tie going to the even significand.
\<close>

datatype pyfloat = Fin rat | PInf | NInf | NaN

definition pow2 :: "int \<Rightarrow> rat" where
  "pow2 e = (if 0 \<le> e then 2 ^ nat e else 1 / 2 ^ nat (- e))"

text \<open>\<open>floorlog2 x\<close> is the exponent \<open>e\<close> with \<open>2^e \<le> x < 2^(e+1)\<close>, for \<open>x > 0\<close>.\<close>

definition floorlog2 :: "rat \<Rightarrow> int" where
  "floorlog2 x =
     (let (p, q) = quotient_of x; d = bitlen p - bitlen q
      in if pow2 d \<le> x then d else d - 1)"

definition round_half_even :: "rat \<Rightarrow> int" where
  "round_half_even x =
     (let f = \<lfloor>x\<rfloor>; r = x - of_int f
      in if r < 1 / 2 then f else if 1 / 2 < r then f + 1
         else if even f then f else f + 1)"

text \<open>The spacing of the floats around \<open>x \<noteq> 0\<close>: 53 significant bits, and \<open>2^-1074\<close> in the
  subnormal range.\<close>

definition quantum :: "rat \<Rightarrow> rat" where
  "quantum x = pow2 (max (floorlog2 \<bar>x\<bar>) (- 1022) - 52)"

definition round_double :: "rat \<Rightarrow> pyfloat" where
  "round_double x =
     (if x = 0 then Fin 0
      else
        let q = quantum x; y = of_int (round_half_even (x / q)) * q
        in if pow2 1024 \<le> y then PInf else if y \<le> - pow2 1024 then NInf else Fin y)"

text \<open>\<open>float(n)\<close> for an int, as the mixed operations \<open>n * 1.5\<close> and \<open>u * 100\<close> do it first:
  it raises \<open>OverflowError\<close> where the rounded value is out of range.\<close>

definition float_of_int :: "int \<Rightarrow> py_error + pyfloat" where
  "float_of_int n =
     (case round_double (of_int n) of Fin y \<Rightarrow> Inr (Fin y) | _ \<Rightarrow> Inl OverflowError)"

text \<open>\<open>a / b\<close> on ints: the exact quotient rounded once.\<close>

definition int_truediv :: "int \<Rightarrow> int \<Rightarrow> py_error + pyfloat" where
  "int_truediv a b =
     (if b = 0 then Inl ZeroDivisionError
      else case round_double (of_int a / of_int b) of
             Fin y \<Rightarrow> Inr (Fin y) | _ \<Rightarrow> Inl OverflowError)"

text \<open>\<open>x * y\<close> on floats: it overflows to an infinity and raises nothing.\<close>

fun float_mul :: "pyfloat \<Rightarrow> pyfloat \<Rightarrow> pyfloat" where
  "float_mul (Fin x) (Fin y) = round_double (x * y)"
| "float_mul NaN _ = NaN"
| "float_mul _ NaN = NaN"
| "float_mul (Fin x) PInf = (if x = 0 then NaN else if 0 < x then PInf else NInf)"
| "float_mul (Fin x) NInf = (if x = 0 then NaN else if 0 < x then NInf else PInf)"
| "float_mul PInf (Fin y) = (if y = 0 then NaN else if 0 < y then PInf else NInf)"
| "float_mul NInf (Fin y) = (if y = 0 then NaN else if 0 < y then NInf else PInf)"
| "float_mul PInf PInf = PInf"
| "float_mul NInf NInf = PInf"
| "float_mul PInf NInf = NInf"
| "float_mul NInf PInf = NInf"

fun ebind :: "'e + 'a \<Rightarrow> ('a \<Rightarrow> 'e + 'b) \<Rightarrow> 'e + 'b" where
  "ebind (Inl e) f = Inl e"
| "ebind (Inr x) f = f x"

text \<open>\<open>x * n\<close> and \<open>n * x\<close> for a float \<open>x\<close> and an int \<open>n\<close>.\<close>

definition float_mul_int :: "pyfloat \<Rightarrow> int \<Rightarrow> py_error + pyfloat" where
  "float_mul_int x n = ebind (float_of_int n) (\<lambda>y. Inr (float_mul x y))"

definition int_mul_float :: "int \<Rightarrow> pyfloat \<Rightarrow> py_error + pyfloat" where
  "int_mul_float n x = ebind (float_of_int n) (\<lambda>y. Inr (float_mul y x))"

text \<open>\<open>x > n\<close> and \<open>x < n\<close> for a float and an int, which Python compares exactly.\<close>

fun float_gt_int :: "pyfloat \<Rightarrow> int \<Rightarrow> bool" where
  "float_gt_int (Fin x) n = (of_int n < x)"
| "float_gt_int PInf n = True"
| "float_gt_int NInf n = False"
| "float_gt_int NaN n = False"

fun float_lt_int :: "pyfloat \<Rightarrow> int \<Rightarrow> bool" where
  "float_lt_int (Fin x) n = (x < of_int n)"
| "float_lt_int PInf n = False"
| "float_lt_int NInf n = True"
| "float_lt_int NaN n = False"

text \<open>\<open>int(x)\<close>: truncation toward zero.\<close>

fun py_int :: "pyfloat \<Rightarrow> py_error + int" where
  "py_int (Fin x) = Inr (if 0 \<le> x then \<lfloor>x\<rfloor> else \<lceil>x\<rceil>)"
| "py_int PInf = Inl OverflowError"
| "py_int NInf = Inl OverflowError"
| "py_int NaN = Inl ValueError"

text \<open>The literals \<open>1.5\<close> and \<open>0.7\<close>: the floats nearest to the decimals. The first is
  3/2; the second is \<open>double_0_7\<close>, below 7/10 by \<open>0.4 * 2^-53\<close>.\<close>

definition double_0_7 :: rat where
  "double_0_7 = 6305039478318694 / 9007199254740992"

definition lit_1_5 :: pyfloat where
  "lit_1_5 = round_double (3 / 2)"

definition lit_0_7 :: pyfloat where
  "lit_0_7 = round_double (7 / 10)"

text \<open>The expressions \<open>int(capacity * 1.5)\<close> and \<open>int(capacity * 0.7)\<close> of \<open>auto_scale\<close>.\<close>

definition scale_capacity_up :: "int \<Rightarrow> py_error + int" where
  "scale_capacity_up capacity = ebind (int_mul_float capacity lit_1_5) py_int"

definition scale_capacity_down :: "int \<Rightarrow> py_error + int" where
  "scale_capacity_down capacity = ebind (int_mul_float capacity lit_0_7) py_int"

section \<open>Utilization and the scaling policy\<close>

text \<open>\<open>sum(self.agent_allocation.values())\<close>, the local \<open>total_allocated\<close> of
  \<open>calculate_utilization\<close>.\<close>

definition total_allocated :: "balancer \<Rightarrow> int" where
  "total_allocated s = sum_list (map snd (agent_allocation s))"

definition calculate_utilization :: "balancer \<Rightarrow> py_error + pyfloat" where
  "calculate_utilization s =
     (let total_capacity = get_total_capacity s
      in if total_capacity = 0 then Inr (Fin 0)
         else ebind (int_truediv (total_allocated s) total_capacity)
                (\<lambda>q. float_mul_int q 100))"

text \<open>\<open>and\<close> evaluates the subscript only when the comparison is true.\<close>

definition should_scale_up :: "balancer \<Rightarrow> py_error + bool" where
  "should_scale_up s =
     ebind (calculate_utilization s) (\<lambda>utilization.
       if float_gt_int utilization 80
       then (case auto_scaling_ready s of None \<Rightarrow> Inl KeyError | Some b \<Rightarrow> Inr b)
       else Inr False)"

definition should_scale_down :: "balancer \<Rightarrow> py_error + bool" where
  "should_scale_down s =
     ebind (calculate_utilization s) (\<lambda>utilization. Inr (float_lt_int utilization 30))"

text \<open>
  The two iterations of \<open>auto_scale\<close>. An exception leaves the capacities written so far in
  place: each one returns the exception, if any, and the state it ends in. The first
  runs over the keys and reads \<open>self.agent_capacity[agent_type]\<close>; the second runs over
  \<open>items()\<close>, and as an iteration writes only the entry it has read, the entries are those
  of the table when the loop starts.
\<close>

fun scale_up_loop :: "string list \<Rightarrow> balancer \<Rightarrow> py_error option \<times> balancer" where
  "scale_up_loop [] s = (None, s)"
| "scale_up_loop (agent_type # rest) s =
     (case map_of (agent_capacity s) agent_type of
        None \<Rightarrow> (Some KeyError, s)
      | Some capacity \<Rightarrow>
          (case scale_capacity_up capacity of
             Inl e \<Rightarrow> (Some e, s)
           | Inr n \<Rightarrow>
               scale_up_loop rest
                 (s\<lparr>agent_capacity := dict_set agent_type n (agent_capacity s)\<rparr>)))"

fun scale_down_loop :: "pydict \<Rightarrow> balancer \<Rightarrow> py_error option \<times> balancer" where
  "scale_down_loop [] s = (None, s)"
| "scale_down_loop ((agent_type, capacity) # rest) s =
     (let allocated = dict_get (agent_allocation s) agent_type 0
      in case scale_capacity_down capacity of
           Inl e \<Rightarrow> (Some e, s)
         | Inr n \<Rightarrow>
             scale_down_loop rest
               (s\<lparr>agent_capacity :=
                    dict_set agent_type (max (allocated + 2) n) (agent_capacity s)\<rparr>))"

definition auto_scale :: "balancer \<Rightarrow> py_error option \<times> balancer" where
  "auto_scale s =
     (case should_scale_up s of
        Inl e \<Rightarrow> (Some e, s)
      | Inr True \<Rightarrow> scale_up_loop (map fst (agent_capacity s)) s
      | Inr False \<Rightarrow>
          (case should_scale_down s of
             Inl e \<Rightarrow> (Some e, s)
           | Inr True \<Rightarrow> scale_down_loop (agent_capacity s) s
           | Inr False \<Rightarrow> (None, s)))"

section \<open>Dict objects: the balancer with references\<close>

text \<open>
  \<open>assign_task\<close> does not copy \<open>required_agents\<close>: the task keeps the caller's dict object,
  and \<open>complete_task\<close> reads that object when it runs. What a live task holds can
  therefore change after the assignment, through the caller or through the balancer
  itself when the object is its own allocation table. The functions above take the
  request as a value and give the result of one call. For the properties of several calls
  the dicts are objects in a store: \<open>dicts w a\<close> is the content of the dict at address \<open>a\<close>,
  and the two tables of the balancer and the \<open>agents\<close> field of a task are addresses. The
  functions with the suffix \<open>_h\<close> are the methods of the same name on this store.
\<close>

type_synonym addr = nat

record task_h =
  name_h :: string
  agents_h :: addr
  start_time_h :: string
  status_h :: string
  end_time_h :: "string option"

record world =
  dicts :: "addr \<Rightarrow> pydict"
  agent_capacity_h :: addr
  agent_allocation_h :: addr
  auto_scaling_ready_h :: "bool option"
  task_queue_h :: "task_h list"
  completed_tasks_h :: "task_h list"

definition get_available_agents_h :: "world \<Rightarrow> string \<Rightarrow> int" where
  "get_available_agents_h w agent_type =
     (let total = dict_get (dicts w (agent_capacity_h w)) agent_type 0;
          allocated = dict_get (dicts w (agent_allocation_h w)) agent_type 0
      in max 0 (total - allocated))"

definition allocate_agent_h :: "world \<Rightarrow> string \<Rightarrow> int \<Rightarrow> bool \<times> world" where
  "allocate_agent_h w agent_type count =
     (let available = get_available_agents_h w agent_type
      in if available \<ge> count
         then (True, w\<lparr>dicts := (dicts w)(agent_allocation_h w :=
                 dict_set agent_type (dict_get (dicts w (agent_allocation_h w)) agent_type 0 + count)
                   (dicts w (agent_allocation_h w)))\<rparr>)
         else (False, w))"

definition release_agent_h :: "world \<Rightarrow> string \<Rightarrow> int \<Rightarrow> world" where
  "release_agent_h w agent_type count =
     w\<lparr>dicts := (dicts w)(agent_allocation_h w :=
         dict_set agent_type (max 0 (dict_get (dicts w (agent_allocation_h w)) agent_type 0 - count))
           (dicts w (agent_allocation_h w)))\<rparr>"

text \<open>
  The iteration over \<open>required_agents.items()\<close>, by position: the item at position \<open>i\<close> is
  read from the dict object when the iteration reaches it. The dict keeps its keys
  meanwhile, so the iteration of Python goes on: the only write is to the allocation
  table, and when that is the dict of the iteration the key written is one it holds; every
  position read is then in range. The result of \<open>allocate_agent\<close> is dropped, as in the
  source.
\<close>

fun allocate_loop_h :: "addr \<Rightarrow> nat list \<Rightarrow> world \<Rightarrow> world" where
  "allocate_loop_h r [] w = w"
| "allocate_loop_h r (i # rest) w =
     (let (agent_type, count) = dicts w r ! i
      in allocate_loop_h r rest (snd (allocate_agent_h w agent_type count)))"

definition assign_task_h :: "world \<Rightarrow> string \<Rightarrow> addr \<Rightarrow> string \<Rightarrow> bool \<times> world" where
  "assign_task_h w task_name required_agents now =
     (let can_allocate =
            list_all (\<lambda>(agent_type, count). get_available_agents_h w agent_type \<ge> count)
              (dicts w required_agents)
      in if \<not> can_allocate then (False, w)
         else
           let w' = allocate_loop_h required_agents
                      [0 ..< length (dicts w required_agents)] w;
               t = \<lparr>name_h = task_name, agents_h = required_agents, start_time_h = now,
                    status_h = ''in_progress'', end_time_h = None\<rparr>
           in (True, w'\<lparr>task_queue_h := task_queue_h w' @ [t]\<rparr>))"

text \<open>The iteration of \<open>complete_task\<close> over \<open>task.agents.items()\<close>, read in the same way from
  the dict object that the task holds.\<close>

fun release_loop_h :: "addr \<Rightarrow> nat list \<Rightarrow> world \<Rightarrow> world" where
  "release_loop_h r [] w = w"
| "release_loop_h r (i # rest) w =
     (let (agent_type, count) = dicts w r ! i
      in release_loop_h r rest (release_agent_h w agent_type count))"

text \<open>The queue after the two field assignments to the first task with the name, as
  \<open>mark_first\<close> above; \<open>task_queue.remove(task)\<close> then removes that task.\<close>

fun mark_first_h :: "string \<Rightarrow> string \<Rightarrow> task_h list \<Rightarrow> task_h list" where
  "mark_first_h task_name now [] = []"
| "mark_first_h task_name now (t # ts) =
     (if name_h t = task_name
      then t\<lparr>status_h := ''completed'', end_time_h := Some now\<rparr> # ts
      else t # mark_first_h task_name now ts)"

definition complete_task_h :: "world \<Rightarrow> string \<Rightarrow> string \<Rightarrow> world" where
  "complete_task_h w task_name now =
     (case find (\<lambda>t. name_h t = task_name) (task_queue_h w) of
        None \<Rightarrow> w
      | Some t \<Rightarrow>
          let w' = release_loop_h (agents_h t) [0 ..< length (dicts w (agents_h t))] w;
              t' = t\<lparr>status_h := ''completed'', end_time_h := Some now\<rparr>
          in w'\<lparr>completed_tasks_h := completed_tasks_h w' @ [t'],
                task_queue_h := remove1 t' (mark_first_h task_name now (task_queue_h w'))\<rparr>)"

text \<open>The allocated value of a pool, absent entries read as 0.\<close>

definition allocated_of_h :: "world \<Rightarrow> string \<Rightarrow> int" where
  "allocated_of_h w p = dict_get (dicts w (agent_allocation_h w)) p 0"

text \<open>The two iterations over a list of items that the writes do not reach; the proofs
  reduce \<open>allocate_loop_h\<close> and \<open>release_loop_h\<close> to them when the dict is not the allocation
  table.\<close>

fun allocate_list :: "pydict \<Rightarrow> world \<Rightarrow> world" where
  "allocate_list [] w = w"
| "allocate_list ((agent_type, count) # rest) w =
     allocate_list rest (snd (allocate_agent_h w agent_type count))"

fun release_list :: "pydict \<Rightarrow> world \<Rightarrow> world" where
  "release_list [] w = w"
| "release_list ((agent_type, count) # rest) w =
     release_list rest (release_agent_h w agent_type count)"

text \<open>
  Between two calls the caller can write to a dict object: \<open>caller_write w a d\<close> is the
  store after the dict at address \<open>a\<close> has got the content \<open>d\<close>.
\<close>

definition caller_write :: "world \<Rightarrow> addr \<Rightarrow> pydict \<Rightarrow> world" where
  "caller_write w a d = w\<lparr>dicts := (dicts w)(a := d)\<rparr>"

section \<open>The properties that are proved\<close>

text \<open>A request dictionary, or a task's reservation, with positive counts only.\<close>

definition positive_request :: "pydict \<Rightarrow> bool" where
  "positive_request R = (dict_wf R \<and> list_all (\<lambda>(p, c). 0 < c) R)"

text \<open>The sum, over the live tasks, of the count each holds of pool \<open>p\<close>, read from the dict
  object of the task as it is now.\<close>

definition live_reserved_h :: "world \<Rightarrow> string \<Rightarrow> int" where
  "live_reserved_h w p =
     sum_list (map (\<lambda>t. dict_get (dicts w (agents_h t)) p 0) (task_queue_h w))"

text \<open>
  The states that the task operations produce from a first state with every allocated
  value 0 and no live task: any calls of \<open>assign_task\<close> with a request dict of positive
  counts that is not the allocation table of the balancer, any calls of \<open>complete_task\<close>,
  and in between any writes of the caller to dicts other than the allocation table and
  the dicts that live tasks hold.
\<close>

inductive reachable_h :: "world \<Rightarrow> bool" where
  initial_h: "\<forall>p. allocated_of_h w p = 0 \<Longrightarrow> task_queue_h w = [] \<Longrightarrow> reachable_h w"
| assign_h: "reachable_h w \<Longrightarrow> positive_request (dicts w r) \<Longrightarrow> r \<noteq> agent_allocation_h w \<Longrightarrow>
     reachable_h (snd (assign_task_h w T r now))"
| complete_h: "reachable_h w \<Longrightarrow> reachable_h (complete_task_h w T now)"
| write_h: "reachable_h w \<Longrightarrow> a \<noteq> agent_allocation_h w \<Longrightarrow>
     a \<notin> agents_h ` set (task_queue_h w) \<Longrightarrow> reachable_h (caller_write w a d)"

text \<open>
  The capacity invariant \<open>0 \<le> allocated[p] \<le> capacity[p]\<close>, for one pool and for a set
  \<open>P\<close> of pools: all names (\<open>UNIV\<close>), or the keys of the capacity table. A pool that a table
  does not hold counts with 0 there.
\<close>

definition pool_ok :: "balancer \<Rightarrow> string \<Rightarrow> bool" where
  "pool_ok s p = (0 \<le> allocated_of s p \<and> allocated_of s p \<le> capacity_of s p)"

definition capacity_invariant :: "string set \<Rightarrow> balancer \<Rightarrow> bool" where
  "capacity_invariant P s = (\<forall>p \<in> P. pool_ok s p)"

text \<open>The scale-up effect in the specification's words: the capacity multiplied by 1.5,
  in exact arithmetic, and truncated toward zero.\<close>

definition spec_scale_up :: "int \<Rightarrow> int" where
  "spec_scale_up capacity =
     (let x = of_int capacity * (3 / 2 :: rat) in if 0 \<le> x then \<lfloor>x\<rfloor> else \<lceil>x\<rceil>)"

text \<open>The scale-down effect in the specification's words:
  \<open>max(allocated + 2, floor(capacity * 0.7))\<close>, in exact arithmetic.\<close>

definition spec_scale_down :: "int \<Rightarrow> int \<Rightarrow> int" where
  "spec_scale_down allocated capacity =
     max (allocated + 2) \<lfloor>of_int capacity * (7 / 10 :: rat)\<rfloor>"

section \<open>Concrete states\<close>

text \<open>The scenario of the specification, with the pools \<open>research\<close> of capacity 12 and
  \<open>dev\<close> of capacity 9: the new balancer, and the state after \<open>T1\<close> is assigned.\<close>

definition scenario_state :: balancer where
  "scenario_state = post_init [(''research'', 12), (''dev'', 9)] (Some True)"

definition scenario_t1 :: balancer where
  "scenario_t1 = snd (assign_task scenario_state ''T1'' [(''research'', 3), (''dev'', 2)] ''09:00'')"

text \<open>A balancer with no pool.\<close>

definition empty_state :: balancer where
  "empty_state = post_init [] (Some True)"

text \<open>States with a negative allocated value, as \<open>allocate_agent\<close> with the count -5 leaves
  them: for a pool without capacity entry, and for a pool of capacity 10.\<close>

definition ghost_state :: balancer where
  "ghost_state = \<lparr>agent_capacity = [], auto_scaling_ready = Some True,
     agent_allocation = [(''ghost'', - 5)], task_queue = [], completed_tasks = []\<rparr>"

definition negative_state :: balancer where
  "negative_state = \<lparr>agent_capacity = [(''research'', 10)], auto_scaling_ready = Some True,
     agent_allocation = [(''research'', - 5)], task_queue = [], completed_tasks = []\<rparr>"

text \<open>One pool of capacity 10 with 8 allocated.\<close>

definition nearly_full_state :: balancer where
  "nearly_full_state = \<lparr>agent_capacity = [(''research'', 10)], auto_scaling_ready = Some True,
     agent_allocation = [(''research'', 8)], task_queue = [], completed_tasks = []\<rparr>"

text \<open>One pool of capacity 1 with \<open>2^1024\<close> allocated, as \<open>release_agent\<close> with the count
  \<open>-2^1024\<close> leaves it.\<close>

definition overflow_state :: balancer where
  "overflow_state = \<lparr>agent_capacity = [(''research'', 1)], auto_scaling_ready = Some True,
     agent_allocation = [(''research'', 2 ^ 1024)], task_queue = [], completed_tasks = []\<rparr>"

text \<open>The scale-up scenario of the specification (capacity 10, 9 allocated, flag enabled),
  and a full pool whose capacity times 3 is \<open>2^53 + 7\<close>.\<close>

definition scale_up_state :: balancer where
  "scale_up_state = \<lparr>agent_capacity = [(''research'', 10)], auto_scaling_ready = Some True,
     agent_allocation = [(''research'', 9)], task_queue = [], completed_tasks = []\<rparr>"

definition large_state :: balancer where
  "large_state = \<lparr>agent_capacity = [(''research'', 3002399751580333)],
     auto_scaling_ready = Some True,
     agent_allocation = [(''research'', 3002399751580333)], task_queue = [],
     completed_tasks = []\<rparr>"

text \<open>The scale-down scenario of the specification (capacity 20, 1 allocated), and an idle
  pool of capacity 90; the flag is disabled in both.\<close>

definition scale_down_state :: balancer where
  "scale_down_state = \<lparr>agent_capacity = [(''research'', 20)], auto_scaling_ready = Some False,
     agent_allocation = [(''research'', 1)], task_queue = [], completed_tasks = []\<rparr>"

definition ninety_state :: balancer where
  "ninety_state = \<lparr>agent_capacity = [(''research'', 90)], auto_scaling_ready = Some False,
     agent_allocation = [(''research'', 0)], task_queue = [], completed_tasks = []\<rparr>"

text \<open>
  The scenario of the specification with its dict objects: the capacity table at address
  0, the allocation table at address 1 as \<open>__post_init__\<close> creates it, and a request dict of
  the caller at address 2. Every other address holds an empty dict.
\<close>

definition scenario_world :: world where
  "scenario_world =
     \<lparr>dicts = (\<lambda>a. [])(0 := [(''research'', 12), (''dev'', 9)],
                       1 := [(''research'', 0), (''dev'', 0)],
                       2 := [(''research'', 3), (''dev'', 2)]),
      agent_capacity_h = 0, agent_allocation_h = 1, auto_scaling_ready_h = Some True,
      task_queue_h = [], completed_tasks_h = []\<rparr>"

text \<open>A new balancer with one pool \<open>a\<close> of capacity 10, and a request dict \<open>{"a": 3}\<close> of the
  caller at address 2.\<close>

definition alias_world :: world where
  "alias_world =
     \<lparr>dicts = (\<lambda>a. [])(0 := [(''a'', 10)], 1 := [(''a'', 0)], 2 := [(''a'', 3)]),
      agent_capacity_h = 0, agent_allocation_h = 1, auto_scaling_ready_h = Some True,
      task_queue_h = [], completed_tasks_h = []\<rparr>"

text \<open>The state after \<open>assign_task("A", d)\<close> with the dict \<open>d\<close> at address 2: the allocation
  table is \<open>{"a": 3}\<close>.\<close>

definition alias_world_a :: world where
  "alias_world_a = snd (assign_task_h alias_world ''A'' 2 ''09:00'')"

text \<open>One pool of capacity 10 with the allocated value -5, as \<open>allocate_agent\<close> with the count
  -5 leaves it, and a request dict \<open>{"research": 3}\<close> of the caller at address 2.\<close>

definition negative_world :: world where
  "negative_world =
     \<lparr>dicts = (\<lambda>a. [])(0 := [(''research'', 10)], 1 := [(''research'', - 5)],
                       2 := [(''research'', 3)]),
      agent_capacity_h = 0, agent_allocation_h = 1, auto_scaling_ready_h = Some True,
      task_queue_h = [], completed_tasks_h = []\<rparr>"

section \<open>Facts about dictionaries\<close>

lemma map_of_dict_set: "map_of (dict_set k v d) = (map_of d)(k \<mapsto> v)"
  by (induction d) (auto simp: fun_eq_iff)

lemma dict_get_dict_set:
  "dict_get (dict_set k v d) k' dflt = (if k' = k then v else dict_get d k' dflt)"
  by (simp add: dict_get_def map_of_dict_set)

lemma keys_dict_set:
  "map fst (dict_set k v d) = (if k \<in> set (map fst d) then map fst d else map fst d @ [k])"
  by (induction d) (auto split: if_splits)

lemma dict_wf_dict_set: "dict_wf d \<Longrightarrow> dict_wf (dict_set k v d)"
  by (simp add: dict_wf_def keys_dict_set)

section \<open>Fields that an operation leaves alone\<close>

lemma allocate_agent_fields:
  "agent_capacity (snd (allocate_agent s p c)) = agent_capacity s"
  "task_queue (snd (allocate_agent s p c)) = task_queue s"
  "completed_tasks (snd (allocate_agent s p c)) = completed_tasks s"
  "auto_scaling_ready (snd (allocate_agent s p c)) = auto_scaling_ready s"
  by (simp_all add: allocate_agent_def Let_def)

lemma allocate_loop_fields:
  "agent_capacity (allocate_loop R s) = agent_capacity s \<and>
   task_queue (allocate_loop R s) = task_queue s \<and>
   completed_tasks (allocate_loop R s) = completed_tasks s \<and>
   auto_scaling_ready (allocate_loop R s) = auto_scaling_ready s"
  by (induction R s rule: allocate_loop.induct) (simp_all add: allocate_agent_fields)

lemma release_agent_fields:
  "agent_capacity (release_agent s p c) = agent_capacity s"
  "task_queue (release_agent s p c) = task_queue s"
  "completed_tasks (release_agent s p c) = completed_tasks s"
  "auto_scaling_ready (release_agent s p c) = auto_scaling_ready s"
  by (simp_all add: release_agent_def)

lemma release_loop_fields:
  "agent_capacity (release_loop R s) = agent_capacity s \<and>
   task_queue (release_loop R s) = task_queue s \<and>
   completed_tasks (release_loop R s) = completed_tasks s \<and>
   auto_scaling_ready (release_loop R s) = auto_scaling_ready s"
  by (induction R s rule: release_loop.induct) (simp_all add: release_agent_fields)

section \<open>Reservation: \<open>allocate_agent\<close> and \<open>assign_task\<close>\<close>

lemma allocated_of_allocate_agent:
  "allocated_of (snd (allocate_agent s k c)) p =
     (if p = k \<and> c \<le> get_available_agents s k then allocated_of s p + c else allocated_of s p)"
  by (simp add: allocate_agent_def allocated_of_def Let_def dict_get_dict_set)

lemma available_allocate_agent_other:
  "p \<noteq> k \<Longrightarrow> get_available_agents (snd (allocate_agent s k c)) p = get_available_agents s p"
  by (simp add: allocate_agent_def get_available_agents_def Let_def dict_get_dict_set)

lemma dict_get_Cons:
  "dict_get ((k, v) # d) p dflt = (if p = k then v else dict_get d p dflt)"
  by (simp add: dict_get_def)

lemma dict_get_absent: "p \<notin> fst ` set d \<Longrightarrow> dict_get d p dflt = dflt"
  using map_of_eq_None_iff[of d p] by (simp add: dict_get_def)

lemma allocated_of_allocate_loop:
  "distinct (map fst R) \<Longrightarrow> \<forall>(p, c) \<in> set R. c \<le> get_available_agents s p \<Longrightarrow>
   allocated_of (allocate_loop R s) p = allocated_of s p + dict_get R p 0"
proof (induction R arbitrary: s)
  case Nil
  then show ?case by (simp add: dict_get_def)
next
  case (Cons a R)
  obtain k c where a: "a = (k, c)" by (cases a)
  let ?s1 = "snd (allocate_agent s k c)"
  from Cons.prems a have kc: "c \<le> get_available_agents s k" and knot: "k \<notin> fst ` set R"
    and dR: "distinct (map fst R)" by auto
  have "\<forall>(p, c) \<in> set R. c \<le> get_available_agents ?s1 p"
  proof (clarify)
    fix p c' assume pc: "(p, c') \<in> set R"
    with knot have "p \<noteq> k" by force
    with pc Cons.prems(2) show "c' \<le> get_available_agents ?s1 p"
      by (auto simp: available_allocate_agent_other)
  qed
  from Cons.IH[OF dR this]
  have "allocated_of (allocate_loop R ?s1) p = allocated_of ?s1 p + dict_get R p 0" .
  with kc knot show ?case
    by (auto simp: a allocated_of_allocate_agent dict_get_Cons dict_get_absent)
qed

text \<open>
  Claim C1. For a request map \<open>R\<close> (a dictionary): if some requested pool has fewer
  agents available than requested, \<open>assign_task\<close> returns \<open>False\<close> and the whole state is
  as before, so no allocated value changes and no task is created. If every requested pool
  has at least the requested count available, it returns \<open>True\<close>, every pool's allocated
  value grows by exactly the count requested for it (by 0 for a pool that is not
  requested), and one new in-progress task is appended to the queue.
\<close>

theorem assign_task_atomic:
  assumes "dict_wf R"
  shows "((\<exists>(p, c) \<in> set R. get_available_agents s p < c) \<longrightarrow>
           assign_task s T R now = (False, s)) \<and>
         ((\<forall>(p, c) \<in> set R. c \<le> get_available_agents s p) \<longrightarrow>
           fst (assign_task s T R now) = True \<and>
           (\<forall>p. allocated_of (snd (assign_task s T R now)) p = allocated_of s p + dict_get R p 0) \<and>
           task_queue (snd (assign_task s T R now)) =
             task_queue s @ [\<lparr>name = T, agents = R, start_time = now,
                               status = ''in_progress'', end_time = None\<rparr>] \<and>
           agent_capacity (snd (assign_task s T R now)) = agent_capacity s \<and>
           completed_tasks (snd (assign_task s T R now)) = completed_tasks s)"
proof (intro conjI impI)
  assume "\<exists>(p, c) \<in> set R. get_available_agents s p < c"
  then show "assign_task s T R now = (False, s)"
    by (auto simp: assign_task_def list_all_iff)
next
  assume ok: "\<forall>(p, c) \<in> set R. c \<le> get_available_agents s p"
  then have la: "list_all (\<lambda>(p, c). c \<le> get_available_agents s p) R"
    by (auto simp: list_all_iff)
  have eq: "assign_task s T R now =
    (True, (allocate_loop R s)\<lparr>task_queue := task_queue (allocate_loop R s) @
        [\<lparr>name = T, agents = R, start_time = now, status = ''in_progress'', end_time = None\<rparr>]\<rparr>)"
    using la by (simp add: assign_task_def Let_def)
  from assms have d: "distinct (map fst R)" by (simp add: dict_wf_def)
  have al: "\<And>p. allocated_of (allocate_loop R s) p = allocated_of s p + dict_get R p 0"
    using allocated_of_allocate_loop[OF d ok] .
  show "fst (assign_task s T R now) = True" by (simp add: eq)
  show "\<forall>p. allocated_of (snd (assign_task s T R now)) p = allocated_of s p + dict_get R p 0"
    using al by (simp add: eq allocated_of_def)
  show "task_queue (snd (assign_task s T R now)) =
             task_queue s @ [\<lparr>name = T, agents = R, start_time = now,
                               status = ''in_progress'', end_time = None\<rparr>]"
    by (simp add: eq allocate_loop_fields)
  show "agent_capacity (snd (assign_task s T R now)) = agent_capacity s"
    by (simp add: eq allocate_loop_fields)
  show "completed_tasks (snd (assign_task s T R now)) = completed_tasks s"
    by (simp add: eq allocate_loop_fields)
qed

text \<open>
  Claim C9. If no live task has the name, \<open>complete_task\<close> returns the state as it is:
  the allocated values, the live tasks and the history of completed tasks are unchanged,
  and nothing is raised.
\<close>

theorem complete_unknown_noop:
  "\<forall>t \<in> set (task_queue s). name t \<noteq> task_name \<Longrightarrow> complete_task s task_name now = s"
proof -
  assume "\<forall>t \<in> set (task_queue s). name t \<noteq> task_name"
  then have "find (\<lambda>t. name t = task_name) (task_queue s) = None"
    by (simp add: find_None_iff)
  then show ?thesis by (simp add: complete_task_def)
qed

text \<open>
  Claim C10. With an empty request map \<open>assign_task\<close> returns \<open>True\<close> in every state and
  appends a live task with an empty reservation; nothing else of the state changes, so
  every allocated value is as before.
\<close>

theorem assign_empty_request:
  "assign_task s task_name [] now =
     (True, s\<lparr>task_queue := task_queue s @
        [\<lparr>name = task_name, agents = [], start_time = now, status = ''in_progress'',
          end_time = None\<rparr>]\<rparr>)"
  by (simp add: assign_task_def)

text \<open>
  Claim C8, amended. \<open>get_available_agents\<close> returns \<open>max(0, capacity[p] - allocated[p])\<close>,
  absent entries read as 0, and raises nothing. For a pool absent from the capacity table
  that is \<open>max(0, - allocated[p])\<close>: it is 0 when the pool's allocated value is not
  negative, in particular when the pool is absent from both tables.
\<close>

theorem available_count:
  "get_available_agents s p = max 0 (capacity_of s p - allocated_of s p) \<and>
   (map_of (agent_capacity s) p = None \<longrightarrow>
      get_available_agents s p = max 0 (- allocated_of s p) \<and>
      (0 \<le> allocated_of s p \<longrightarrow> get_available_agents s p = 0))"
  by (simp add: get_available_agents_def capacity_of_def allocated_of_def dict_get_def)

lemma scenario_t1_eq:
  "scenario_t1 = \<lparr>agent_capacity = [(''research'', 12), (''dev'', 9)], auto_scaling_ready = Some True,
     agent_allocation = [(''research'', 3), (''dev'', 2)],
     task_queue = [\<lparr>name = ''T1'', agents = [(''research'', 3), (''dev'', 2)], start_time = ''09:00'',
        status = ''in_progress'', end_time = None\<rparr>], completed_tasks = []\<rparr>"
  by (simp add: scenario_t1_def scenario_state_def post_init_def assign_task_def
      get_available_agents_def dict_get_def allocate_agent_def Let_def)

theorem assign_task_atomic_witness:
  "dict_wf [(''research'', 10)] \<and>
   (\<exists>(p, c) \<in> set [(''research'', 10)]. get_available_agents scenario_t1 p < c) \<and>
   assign_task scenario_t1 ''T2'' [(''research'', 10)] ''09:05'' = (False, scenario_t1) \<and>
   dict_wf [(''research'', 3), (''dev'', 2)] \<and>
   3 \<le> get_available_agents scenario_state ''research'' \<and>
   2 \<le> get_available_agents scenario_state ''dev'' \<and>
   fst (assign_task scenario_state ''T1'' [(''research'', 3), (''dev'', 2)] ''09:00'') = True \<and>
   allocated_of (snd (assign_task scenario_state ''T1'' [(''research'', 3), (''dev'', 2)] ''09:00''))
     ''research'' = 3"
proof -
  have w1: "dict_wf [(''research'', 10)]" by (simp add: dict_wf_def)
  have a1: "\<exists>(p, c) \<in> set [(''research'', 10)]. get_available_agents scenario_t1 p < c"
    by (simp add: scenario_t1_eq get_available_agents_def dict_get_def)
  have w2: "dict_wf [(''research'', 3), (''dev'', 2)]" by (simp add: dict_wf_def)
  have a2: "\<forall>(p, c) \<in> set [(''research'', 3), (''dev'', 2)]. c \<le> get_available_agents scenario_state p"
    by (simp add: scenario_state_def post_init_def get_available_agents_def dict_get_def)
  have z: "allocated_of scenario_state ''research'' + dict_get [(''research'', 3), (''dev'', 2)] ''research'' 0 = 3"
    by (simp add: scenario_state_def post_init_def allocated_of_def dict_get_def)
  from assign_task_atomic[OF w1, of scenario_t1 "''T2''" "''09:05''"] a1
  have r1: "assign_task scenario_t1 ''T2'' [(''research'', 10)] ''09:05'' = (False, scenario_t1)"
    by blast
  from assign_task_atomic[OF w2, of scenario_state "''T1''" "''09:00''"] a2
  have r2: "fst (assign_task scenario_state ''T1'' [(''research'', 3), (''dev'', 2)] ''09:00'') = True"
    and r3: "allocated_of (snd (assign_task scenario_state ''T1'' [(''research'', 3), (''dev'', 2)] ''09:00''))
     ''research'' = allocated_of scenario_state ''research'' + dict_get [(''research'', 3), (''dev'', 2)] ''research'' 0"
    by blast+
  show ?thesis using w1 a1 r1 w2 a2 r2 r3 z by simp
qed

theorem complete_unknown_noop_witness:
  "map name (task_queue scenario_t1) = [''T1''] \<and>
   complete_task scenario_t1 ''T9'' ''10:00'' = scenario_t1"
proof -
  have h: "\<forall>t \<in> set (task_queue scenario_t1). name t \<noteq> ''T9''"
    by (simp add: scenario_t1_eq)
  from complete_unknown_noop[OF h] show ?thesis by (simp add: scenario_t1_eq)
qed

theorem assign_empty_request_witness:
  "assign_task scenario_t1 ''T0'' [] ''09:10'' =
     (True, scenario_t1\<lparr>task_queue := task_queue scenario_t1 @
        [\<lparr>name = ''T0'', agents = [], start_time = ''09:10'', status = ''in_progress'',
          end_time = None\<rparr>]\<rparr>)"
  using assign_empty_request[of scenario_t1 "''T0''" "''09:10''"] by simp

text \<open>
  Claim C8 as stated says that a pool absent from the capacity table has 0 available in
  every state. A state whose allocation table holds a negative value for such a pool
  (\<open>allocate_agent("ghost", -5)\<close> on an empty balancer produces it) has 5 available.
\<close>

theorem available_count_unknown_pool_counterexample:
  "map_of (agent_capacity ghost_state) ''ghost'' = None \<and>
   get_available_agents ghost_state ''ghost'' = 5"
  by (simp add: ghost_state_def get_available_agents_def dict_get_def)

theorem available_count_witness:
  "get_available_agents scenario_t1 ''research'' = 9 \<and>
   map_of (agent_capacity scenario_t1) ''sales'' = None \<and>
   0 \<le> allocated_of scenario_t1 ''sales'' \<and>
   get_available_agents scenario_t1 ''sales'' = 0"
proof -
  have a: "map_of (agent_capacity scenario_t1) ''sales'' = None"
    and b: "0 \<le> allocated_of scenario_t1 ''sales''"
    and c: "max 0 (capacity_of scenario_t1 ''research'' - allocated_of scenario_t1 ''research'') = 9"
    by (simp_all add: scenario_t1_eq allocated_of_def capacity_of_def dict_get_def)
  from available_count[of scenario_t1 "''research''"] c
  have r: "get_available_agents scenario_t1 ''research'' = 9" by simp
  from available_count[of scenario_t1 "''sales''"] a b
  have "get_available_agents scenario_t1 ''sales'' = 0" by blast
  with a b r show ?thesis by simp
qed

section \<open>Release: \<open>release_agent\<close> and \<open>complete_task\<close>\<close>

lemma allocated_of_release_agent:
  "allocated_of (release_agent s k c) p =
     (if p = k then max 0 (allocated_of s p - c) else allocated_of s p)"
  by (simp add: release_agent_def allocated_of_def dict_get_dict_set)

lemma find_first_split:
  "find P q = Some t \<Longrightarrow> \<exists>ys zs. q = ys @ t # zs \<and> (\<forall>y \<in> set ys. \<not> P y) \<and> P t"
proof (induction q)
  case Nil
  then show ?case by simp
next
  case (Cons a q)
  show ?case
  proof (cases "P a")
    case True
    with Cons.prems have "a = t" by simp
    with True show ?thesis by (intro exI[of _ "[]"] exI[of _ q]) simp
  next
    case False
    with Cons.prems have "find P q = Some t" by simp
    from Cons.IH[OF this] obtain ys zs where "q = ys @ t # zs" "\<forall>y \<in> set ys. \<not> P y" "P t"
      by blast
    with False show ?thesis by (intro exI[of _ "a # ys"] exI[of _ zs]) simp
  qed
qed

section \<open>Reservation and release on dict objects\<close>

lemma allocate_agent_h_fields:
  "agent_capacity_h (snd (allocate_agent_h w k c)) = agent_capacity_h w"
  "agent_allocation_h (snd (allocate_agent_h w k c)) = agent_allocation_h w"
  "task_queue_h (snd (allocate_agent_h w k c)) = task_queue_h w"
  "completed_tasks_h (snd (allocate_agent_h w k c)) = completed_tasks_h w"
  "auto_scaling_ready_h (snd (allocate_agent_h w k c)) = auto_scaling_ready_h w"
  "a \<noteq> agent_allocation_h w \<Longrightarrow> dicts (snd (allocate_agent_h w k c)) a = dicts w a"
  by (simp_all add: allocate_agent_h_def Let_def)

lemma release_agent_h_fields:
  "agent_capacity_h (release_agent_h w k c) = agent_capacity_h w"
  "agent_allocation_h (release_agent_h w k c) = agent_allocation_h w"
  "task_queue_h (release_agent_h w k c) = task_queue_h w"
  "completed_tasks_h (release_agent_h w k c) = completed_tasks_h w"
  "auto_scaling_ready_h (release_agent_h w k c) = auto_scaling_ready_h w"
  "a \<noteq> agent_allocation_h w \<Longrightarrow> dicts (release_agent_h w k c) a = dicts w a"
  by (simp_all add: release_agent_h_def)

lemma allocate_list_fields:
  "agent_capacity_h (allocate_list R w) = agent_capacity_h w \<and>
   agent_allocation_h (allocate_list R w) = agent_allocation_h w \<and>
   task_queue_h (allocate_list R w) = task_queue_h w \<and>
   completed_tasks_h (allocate_list R w) = completed_tasks_h w \<and>
   auto_scaling_ready_h (allocate_list R w) = auto_scaling_ready_h w \<and>
   (a \<noteq> agent_allocation_h w \<longrightarrow> dicts (allocate_list R w) a = dicts w a)"
  by (induction R w rule: allocate_list.induct) (simp_all add: allocate_agent_h_fields)

lemma release_list_fields:
  "agent_capacity_h (release_list R w) = agent_capacity_h w \<and>
   agent_allocation_h (release_list R w) = agent_allocation_h w \<and>
   task_queue_h (release_list R w) = task_queue_h w \<and>
   completed_tasks_h (release_list R w) = completed_tasks_h w \<and>
   auto_scaling_ready_h (release_list R w) = auto_scaling_ready_h w \<and>
   (a \<noteq> agent_allocation_h w \<longrightarrow> dicts (release_list R w) a = dicts w a)"
  by (induction R w rule: release_list.induct) (simp_all add: release_agent_h_fields)

text \<open>When the iterated dict is not the allocation table, no write reaches it, and the
  iteration is that over its items as they are at the start.\<close>

lemma allocate_loop_h_static:
  "r \<noteq> agent_allocation_h w \<Longrightarrow>
   allocate_loop_h r idx w = allocate_list (map (\<lambda>i. dicts w r ! i) idx) w"
proof (induction idx arbitrary: w)
  case Nil
  then show ?case by simp
next
  case (Cons i idx)
  obtain k c where kc: "dicts w r ! i = (k, c)" by (cases "dicts w r ! i")
  let ?w' = "snd (allocate_agent_h w k c)"
  from Cons.prems have r': "r \<noteq> agent_allocation_h ?w'" by (simp add: allocate_agent_h_fields)
  have same: "dicts ?w' r = dicts w r" using Cons.prems by (simp add: allocate_agent_h_fields)
  from Cons.IH[OF r'] show ?case by (simp add: kc same)
qed

lemma release_loop_h_static:
  "r \<noteq> agent_allocation_h w \<Longrightarrow>
   release_loop_h r idx w = release_list (map (\<lambda>i. dicts w r ! i) idx) w"
proof (induction idx arbitrary: w)
  case Nil
  then show ?case by simp
next
  case (Cons i idx)
  obtain k c where kc: "dicts w r ! i = (k, c)" by (cases "dicts w r ! i")
  let ?w' = "release_agent_h w k c"
  from Cons.prems have r': "r \<noteq> agent_allocation_h ?w'" by (simp add: release_agent_h_fields)
  have same: "dicts ?w' r = dicts w r" using Cons.prems by (simp add: release_agent_h_fields)
  from Cons.IH[OF r'] show ?case by (simp add: kc same)
qed

lemma allocate_loop_h_all:
  "r \<noteq> agent_allocation_h w \<Longrightarrow>
   allocate_loop_h r [0 ..< length (dicts w r)] w = allocate_list (dicts w r) w"
  by (simp add: allocate_loop_h_static map_nth)

lemma release_loop_h_all:
  "r \<noteq> agent_allocation_h w \<Longrightarrow>
   release_loop_h r [0 ..< length (dicts w r)] w = release_list (dicts w r) w"
  by (simp add: release_loop_h_static map_nth)

lemma allocated_of_h_allocate_agent:
  "allocated_of_h (snd (allocate_agent_h w k c)) p =
     (if p = k \<and> c \<le> get_available_agents_h w k then allocated_of_h w p + c else allocated_of_h w p)"
  by (simp add: allocate_agent_h_def allocated_of_h_def Let_def dict_get_dict_set)

lemma available_h_allocate_agent_other:
  "p \<noteq> k \<Longrightarrow>
   get_available_agents_h (snd (allocate_agent_h w k c)) p = get_available_agents_h w p"
  by (simp add: allocate_agent_h_def get_available_agents_h_def Let_def dict_get_dict_set)

lemma allocated_of_h_allocate_list:
  "distinct (map fst R) \<Longrightarrow> \<forall>(p, c) \<in> set R. c \<le> get_available_agents_h w p \<Longrightarrow>
   allocated_of_h (allocate_list R w) p = allocated_of_h w p + dict_get R p 0"
proof (induction R arbitrary: w)
  case Nil
  then show ?case by (simp add: dict_get_def)
next
  case (Cons a R)
  obtain k c where a: "a = (k, c)" by (cases a)
  let ?w1 = "snd (allocate_agent_h w k c)"
  from Cons.prems a have kc: "c \<le> get_available_agents_h w k" and knot: "k \<notin> fst ` set R"
    and dR: "distinct (map fst R)" by auto
  have "\<forall>(p, c) \<in> set R. c \<le> get_available_agents_h ?w1 p"
  proof (clarify)
    fix p c' assume pc: "(p, c') \<in> set R"
    with knot have "p \<noteq> k" by force
    with pc Cons.prems(2) show "c' \<le> get_available_agents_h ?w1 p"
      by (auto simp: available_h_allocate_agent_other)
  qed
  from Cons.IH[OF dR this]
  have "allocated_of_h (allocate_list R ?w1) p = allocated_of_h ?w1 p + dict_get R p 0" .
  with kc knot show ?case
    by (auto simp: a allocated_of_h_allocate_agent dict_get_Cons dict_get_absent)
qed

lemma allocated_of_h_release_agent:
  "allocated_of_h (release_agent_h w k c) p =
     (if p = k then max 0 (allocated_of_h w p - c) else allocated_of_h w p)"
  by (simp add: release_agent_h_def allocated_of_h_def dict_get_dict_set)

lemma allocated_of_h_release_list:
  "distinct (map fst R) \<Longrightarrow>
   allocated_of_h (release_list R w) p =
     (if p \<in> fst ` set R then max 0 (allocated_of_h w p - dict_get R p 0) else allocated_of_h w p)"
proof (induction R arbitrary: w)
  case Nil
  then show ?case by simp
next
  case (Cons a R)
  obtain k c where a: "a = (k, c)" by (cases a)
  from Cons.prems a have knot: "k \<notin> fst ` set R" and dR: "distinct (map fst R)" by auto
  from Cons.IH[OF dR, of "release_agent_h w k c"] knot show ?case
    by (auto simp: a allocated_of_h_release_agent dict_get_Cons dict_get_absent)
qed

lemma mark_first_h_split:
  "\<forall>y \<in> set ys. name_h y \<noteq> T \<Longrightarrow> name_h t = T \<Longrightarrow>
   mark_first_h T now (ys @ t # zs) =
     ys @ t\<lparr>status_h := ''completed'', end_time_h := Some now\<rparr> # zs"
  by (induction ys) auto

lemma remove1_h_split:
  "\<forall>y \<in> set ys. name_h y \<noteq> name_h t \<Longrightarrow> remove1 t (ys @ t # zs) = ys @ zs"
  by (induction ys) auto

lemma assign_task_h_cases:
  "assign_task_h w T r now = (False, w) \<or>
   (list_all (\<lambda>(p, c). c \<le> get_available_agents_h w p) (dicts w r) \<and>
    assign_task_h w T r now =
      (True, (allocate_loop_h r [0 ..< length (dicts w r)] w)\<lparr>task_queue_h :=
         task_queue_h (allocate_loop_h r [0 ..< length (dicts w r)] w) @
         [\<lparr>name_h = T, agents_h = r, start_time_h = now, status_h = ''in_progress'',
           end_time_h = None\<rparr>]\<rparr>))"
  by (simp add: assign_task_h_def Let_def)

lemma assign_task_h_success:
  assumes "r \<noteq> agent_allocation_h w" and "fst (assign_task_h w T r now)"
  shows "list_all (\<lambda>(p, c). c \<le> get_available_agents_h w p) (dicts w r) \<and>
    snd (assign_task_h w T r now) =
      (allocate_list (dicts w r) w)\<lparr>task_queue_h := task_queue_h w @
         [\<lparr>name_h = T, agents_h = r, start_time_h = now, status_h = ''in_progress'',
           end_time_h = None\<rparr>]\<rparr>"
  using assign_task_h_cases[of w T r now] assms
  by (auto simp: allocate_loop_h_all allocate_list_fields)

lemma complete_task_h_found:
  assumes f: "find (\<lambda>t. name_h t = T) (task_queue_h w) = Some t" and r: "agents_h t \<noteq> agent_allocation_h w"
  shows "\<exists>ys zs. task_queue_h w = ys @ t # zs \<and> (\<forall>y \<in> set ys. name_h y \<noteq> T) \<and> name_h t = T \<and>
    complete_task_h w T now =
      (release_list (dicts w (agents_h t)) w)\<lparr>completed_tasks_h := completed_tasks_h w @
           [t\<lparr>status_h := ''completed'', end_time_h := Some now\<rparr>],
         task_queue_h := ys @ zs\<rparr>"
proof -
  from find_first_split[OF f] obtain ys zs where
    q: "task_queue_h w = ys @ t # zs" and ys: "\<forall>y \<in> set ys. name_h y \<noteq> T" and t: "name_h t = T"
    by blast
  let ?t' = "t\<lparr>status_h := ''completed'', end_time_h := Some now\<rparr>"
  have "remove1 ?t' (mark_first_h T now (task_queue_h w)) = ys @ zs"
    using ys t by (simp add: q mark_first_h_split remove1_h_split)
  then have "complete_task_h w T now =
      (release_list (dicts w (agents_h t)) w)\<lparr>completed_tasks_h := completed_tasks_h w @ [?t'],
         task_queue_h := ys @ zs\<rparr>"
    using f r by (simp add: complete_task_h_def Let_def release_loop_h_all release_list_fields)
  with q ys t show ?thesis by blast
qed

section \<open>Assignment and completion on dict objects\<close>

lemma find_append_new_h:
  "\<forall>t \<in> set q. name_h t \<noteq> T \<Longrightarrow> name_h t' = T \<Longrightarrow>
   find (\<lambda>t. name_h t = T) (q @ [t']) = Some t'"
  by (induction q) auto

lemma assign_task_h_failure:
  "\<not> fst (assign_task_h w T r now) \<Longrightarrow> snd (assign_task_h w T r now) = w"
  using assign_task_h_cases[of w T r now] by auto

text \<open>
  Claim C3, amended. The request dict is an object \<open>r\<close> other than the allocation table of
  the balancer, and every requested pool's allocated value is not negative. If
  \<open>assign_task(T, r)\<close> succeeds and no live task was named \<open>T\<close>, then \<open>complete_task(T)\<close>
  brings every pool's allocated value back to what it was before the assignment, and the
  queue of live tasks too. Between the two calls the caller may have written to any dict
  but \<open>r\<close> and the allocation table: \<open>ds\<close> is the store at the time of \<open>complete_task\<close>.
\<close>

theorem assign_complete_round_trip:
  assumes wf: "dict_wf (dicts w r)"
    and own: "r \<noteq> agent_allocation_h w"
    and nonneg: "\<forall>(p, c) \<in> set (dicts w r). 0 \<le> allocated_of_h w p"
    and ok: "fst (assign_task_h w T r now)"
    and fresh: "\<forall>t \<in> set (task_queue_h w). name_h t \<noteq> T"
    and kept: "\<forall>a \<in> {r, agent_allocation_h w}. ds a = dicts (snd (assign_task_h w T r now)) a"
  shows "(\<forall>p. allocated_of_h
              (complete_task_h ((snd (assign_task_h w T r now))\<lparr>dicts := ds\<rparr>) T now') p =
            allocated_of_h w p) \<and>
         task_queue_h (complete_task_h ((snd (assign_task_h w T r now))\<lparr>dicts := ds\<rparr>) T now') =
           task_queue_h w"
proof -
  let ?R = "dicts w r"
  let ?t = "\<lparr>name_h = T, agents_h = r, start_time_h = now, status_h = ''in_progress'',
             end_time_h = None\<rparr>"
  let ?w1 = "snd (assign_task_h w T r now)"
  let ?w2 = "?w1\<lparr>dicts := ds\<rparr>"
  from wf have d: "distinct (map fst ?R)" by (simp add: dict_wf_def)
  from assign_task_h_success[OF own ok]
  have la: "list_all (\<lambda>(p, c). c \<le> get_available_agents_h w p) ?R"
    and w1: "?w1 = (allocate_list ?R w)\<lparr>task_queue_h := task_queue_h w @ [?t]\<rparr>"
    by blast+
  from la have all: "\<forall>(p, c) \<in> set ?R. c \<le> get_available_agents_h w p"
    by (auto simp: list_all_iff)
  have ref1: "agent_allocation_h ?w1 = agent_allocation_h w"
    by (simp add: w1 allocate_list_fields)
  have r1: "dicts ?w1 r = ?R"
    using own by (simp add: w1 allocate_list_fields)
  from kept have dsr: "ds r = ?R" and dsa: "ds (agent_allocation_h w) = dicts ?w1 (agent_allocation_h w)"
    by (simp_all add: r1)
  have q2: "task_queue_h ?w2 = task_queue_h w @ [?t]" by (simp add: w1)
  have ref2: "agent_allocation_h ?w2 = agent_allocation_h w" by (simp add: ref1)
  have f: "find (\<lambda>t. name_h t = T) (task_queue_h ?w2) = Some ?t"
    using fresh by (simp only: q2) (rule find_append_new_h, simp_all)
  have own2: "agents_h ?t \<noteq> agent_allocation_h ?w2" using own by (simp add: ref2)
  from complete_task_h_found[OF f own2, of now'] obtain ys zs where
    q: "task_queue_h ?w2 = ys @ ?t # zs" and ys: "\<forall>y \<in> set ys. name_h y \<noteq> T" and
    c: "complete_task_h ?w2 T now' =
      (release_list (dicts ?w2 (agents_h ?t)) ?w2)\<lparr>completed_tasks_h := completed_tasks_h ?w2 @
           [?t\<lparr>status_h := ''completed'', end_time_h := Some now'\<rparr>],
         task_queue_h := ys @ zs\<rparr>"
    by blast
  have "zs = []"
  proof (rule ccontr)
    assume "zs \<noteq> []"
    then obtain zs' z where "zs = zs' @ [z]" by (metis rev_exhaust)
    with q have "task_queue_h w @ [?t] = (ys @ ?t # zs') @ [z]" by (simp add: q2)
    then have "task_queue_h w = ys @ ?t # zs'" by (simp only: append1_eq_conv)
    with fresh show False by auto
  qed
  with q have ysq: "ys = task_queue_h w" by (simp add: q2)
  have held: "dicts ?w2 (agents_h ?t) = ?R" by (simp add: dsr)
  have a1: "\<And>p. allocated_of_h ?w1 p = allocated_of_h w p + dict_get ?R p 0"
    using allocated_of_h_allocate_list[OF d all]
    by (simp add: w1 allocated_of_h_def allocate_list_fields)
  have a2: "\<And>p. allocated_of_h ?w2 p = allocated_of_h w p + dict_get ?R p 0"
    using a1 by (simp add: allocated_of_h_def ref1 dsa)
  have "\<And>p. allocated_of_h (complete_task_h ?w2 T now') p = allocated_of_h w p"
  proof -
    fix p
    have "allocated_of_h (complete_task_h ?w2 T now') p = allocated_of_h (release_list ?R ?w2) p"
      by (simp only: c held) (simp add: allocated_of_h_def)
    also have "\<dots> = (if p \<in> fst ` set ?R then max 0 (allocated_of_h ?w2 p - dict_get ?R p 0)
                      else allocated_of_h ?w2 p)"
      by (rule allocated_of_h_release_list[OF d])
    also have "\<dots> = allocated_of_h w p"
    proof (cases "p \<in> fst ` set ?R")
      case True
      with nonneg have "0 \<le> allocated_of_h w p" by auto
      with True show ?thesis by (simp add: a2)
    next
      case False
      then show ?thesis by (simp add: a2 dict_get_absent)
    qed
    finally show "allocated_of_h (complete_task_h ?w2 T now') p = allocated_of_h w p" .
  qed
  moreover have "task_queue_h (complete_task_h ?w2 T now') = task_queue_h w"
    using \<open>zs = []\<close> ysq by (simp only: c) simp
  ultimately show ?thesis by blast
qed

text \<open>
  Claim C3 as stated is about every state. In a state where a pool's allocated value is
  -5 (\<open>allocate_agent("research", -5)\<close> produces it) assigning 3 agents succeeds and gives
  -2; the release computes \<open>max(0, -2 - 3) = 0\<close>, not -5.
\<close>

theorem round_trip_negative_counterexample:
  "task_queue negative_state = [] \<and>
   allocated_of negative_state ''research'' = - 5 \<and>
   fst (assign_task negative_state ''T'' [(''research'', 3)] ''09:00'') \<and>
   allocated_of (complete_task (snd (assign_task negative_state ''T'' [(''research'', 3)] ''09:00''))
      ''T'' ''10:00'') ''research'' = 0"
  by (simp add: negative_state_def assign_task_def get_available_agents_def dict_get_def
      allocate_agent_def Let_def complete_task_def release_agent_def allocated_of_def)

lemmas world_eval =
  assign_task_h_def complete_task_h_def get_available_agents_h_def allocate_agent_h_def
  release_agent_h_def allocated_of_h_def live_reserved_h_def caller_write_def dict_get_def
  Let_def upt_conv_Cons

theorem assign_complete_round_trip_witness:
  "dict_wf (dicts scenario_world 2) \<and>
   2 \<noteq> agent_allocation_h scenario_world \<and>
   0 \<le> allocated_of_h scenario_world ''research'' \<and>
   0 \<le> allocated_of_h scenario_world ''dev'' \<and>
   fst (assign_task_h scenario_world ''T1'' 2 ''09:00'') \<and>
   task_queue_h scenario_world = [] \<and>
   allocated_of_h (snd (assign_task_h scenario_world ''T1'' 2 ''09:00'')) ''research'' = 3 \<and>
   allocated_of_h (complete_task_h
       (caller_write (snd (assign_task_h scenario_world ''T1'' 2 ''09:00'')) 3 [(''dev'', 1)])
       ''T1'' ''10:00'') ''research'' = 0"
proof -
  let ?w1 = "snd (assign_task_h scenario_world ''T1'' 2 ''09:00'')"
  let ?ds = "(dicts ?w1)(3 := [(''dev'', 1)])"
  have r: "dicts scenario_world 2 = [(''research'', 3), (''dev'', 2)]"
    by (simp add: scenario_world_def)
  have wf: "dict_wf (dicts scenario_world 2)" by (simp add: r dict_wf_def)
  have own: "2 \<noteq> agent_allocation_h scenario_world" by (simp add: scenario_world_def)
  have z: "allocated_of_h scenario_world ''research'' = 0"
    "allocated_of_h scenario_world ''dev'' = 0"
    by (simp_all add: scenario_world_def allocated_of_h_def dict_get_def)
  then have nn: "\<forall>(p, c) \<in> set (dicts scenario_world 2). 0 \<le> allocated_of_h scenario_world p"
    by (simp add: r)
  have ok: "fst (assign_task_h scenario_world ''T1'' 2 ''09:00'')"
    by (simp add: scenario_world_def world_eval)
  have q: "task_queue_h scenario_world = []" by (simp add: scenario_world_def)
  then have fresh: "\<forall>t \<in> set (task_queue_h scenario_world). name_h t \<noteq> ''T1''" by simp
  have kept: "\<forall>a \<in> {2, agent_allocation_h scenario_world}. ?ds a = dicts ?w1 a"
    by (simp add: scenario_world_def)
  have a: "allocated_of_h ?w1 ''research'' = 3"
    by (simp add: scenario_world_def world_eval)
  have cw: "caller_write ?w1 3 [(''dev'', 1)] = ?w1\<lparr>dicts := ?ds\<rparr>"
    by (simp add: caller_write_def)
  from assign_complete_round_trip[OF wf own nn ok fresh kept, of "''10:00''"]
  have "allocated_of_h (complete_task_h (?w1\<lparr>dicts := ?ds\<rparr>) ''T1'' ''10:00'') ''research'' =
        allocated_of_h scenario_world ''research''" by blast
  with wf own z ok q a show ?thesis by (simp only: cw) simp
qed

text \<open>
  Why the allocated values must not be negative, on dict objects as above on values: from
  -5, assigning 3 agents with a dict of the caller and completing the task leaves 0.
\<close>

lemma round_trip_negative_example:
  "allocated_of_h negative_world ''research'' = - 5 \<and>
   2 \<noteq> agent_allocation_h negative_world \<and>
   fst (assign_task_h negative_world ''T'' 2 ''09:00'') \<and>
   allocated_of_h (complete_task_h (snd (assign_task_h negative_world ''T'' 2 ''09:00''))
       ''T'' ''10:00'') ''research'' = 0"
  by (simp add: negative_world_def world_eval)

text \<open>
  Why the request dict must not be the allocation table. With capacity \<open>{"a": 10}\<close> and
  allocation \<open>{"a": 3}\<close>, \<open>assign_task("T", lb.agent_allocation)\<close> succeeds and doubles the
  entry to 6; the task holds the table itself, so \<open>complete_task("T")\<close> releases 6 and
  leaves 0, not 3.
\<close>

lemma round_trip_alias_example:
  "allocated_of_h alias_world_a ''a'' = 3 \<and>
   fst (assign_task_h alias_world_a ''T'' (agent_allocation_h alias_world_a) ''09:30'') \<and>
   allocated_of_h (snd (assign_task_h alias_world_a ''T'' (agent_allocation_h alias_world_a)
       ''09:30'')) ''a'' = 6 \<and>
   allocated_of_h (complete_task_h
       (snd (assign_task_h alias_world_a ''T'' (agent_allocation_h alias_world_a) ''09:30''))
       ''T'' ''10:00'') ''a'' = 0"
  by (simp add: alias_world_a_def alias_world_def world_eval)

text \<open>
  Why the caller must leave the request dict alone until the task is completed. After
  \<open>assign_task("A", d)\<close> with \<open>d = {"a": 3}\<close> on a new balancer, the caller sets
  \<open>d["a"] = 1\<close>; \<open>complete_task("A")\<close> then releases 1 and leaves 2, not 0.
\<close>

lemma round_trip_rewrite_example:
  "allocated_of_h alias_world ''a'' = 0 \<and>
   fst (assign_task_h alias_world ''A'' 2 ''09:00'') \<and>
   allocated_of_h alias_world_a ''a'' = 3 \<and>
   allocated_of_h (complete_task_h (caller_write alias_world_a 2 [(''a'', 1)]) ''A'' ''10:00'')
     ''a'' = 2"
  by (simp add: alias_world_a_def alias_world_def world_eval)

section \<open>The ledger as the sum of the live reservations, on dict objects\<close>

lemma dict_get_nonneg: "list_all (\<lambda>(p, c). 0 < c) R \<Longrightarrow> 0 \<le> dict_get R p 0"
  by (induction R) (auto simp: dict_get_Cons dict_get_def)

lemma ledger_h_assign:
  assumes inv: "\<forall>p. allocated_of_h w p = live_reserved_h w p"
    and held: "\<forall>t \<in> set (task_queue_h w).
                 agents_h t \<noteq> agent_allocation_h w \<and> positive_request (dicts w (agents_h t))"
    and R: "positive_request (dicts w r)"
    and own: "r \<noteq> agent_allocation_h w"
  shows "(\<forall>p. allocated_of_h (snd (assign_task_h w T r now)) p =
              live_reserved_h (snd (assign_task_h w T r now)) p) \<and>
         (\<forall>t \<in> set (task_queue_h (snd (assign_task_h w T r now))).
              agents_h t \<noteq> agent_allocation_h (snd (assign_task_h w T r now)) \<and>
              positive_request (dicts (snd (assign_task_h w T r now)) (agents_h t)))"
proof (cases "fst (assign_task_h w T r now)")
  case False
  then have "snd (assign_task_h w T r now) = w" by (rule assign_task_h_failure)
  with inv held show ?thesis by simp
next
  case True
  let ?R = "dicts w r"
  let ?t = "\<lparr>name_h = T, agents_h = r, start_time_h = now, status_h = ''in_progress'',
             end_time_h = None\<rparr>"
  let ?w1 = "snd (assign_task_h w T r now)"
  from assign_task_h_success[OF own True]
  have la: "list_all (\<lambda>(p, c). c \<le> get_available_agents_h w p) ?R"
    and w1: "?w1 = (allocate_list ?R w)\<lparr>task_queue_h := task_queue_h w @ [?t]\<rparr>"
    by blast+
  from la have all: "\<forall>(p, c) \<in> set ?R. c \<le> get_available_agents_h w p"
    by (auto simp: list_all_iff)
  from R have d: "distinct (map fst ?R)" by (simp add: positive_request_def dict_wf_def)
  have ref1: "agent_allocation_h ?w1 = agent_allocation_h w"
    by (simp add: w1 allocate_list_fields)
  have same: "\<And>a. a \<noteq> agent_allocation_h w \<Longrightarrow> dicts ?w1 a = dicts w a"
    by (simp add: w1 allocate_list_fields)
  have q1: "task_queue_h ?w1 = task_queue_h w @ [?t]" by (simp add: w1)
  have a1: "\<And>p. allocated_of_h ?w1 p = allocated_of_h w p + dict_get ?R p 0"
    using allocated_of_h_allocate_list[OF d all]
    by (simp add: w1 allocated_of_h_def allocate_list_fields)
  have l1: "\<And>p. live_reserved_h ?w1 p = live_reserved_h w p + dict_get ?R p 0"
  proof -
    fix p
    have "sum_list (map (\<lambda>t. dict_get (dicts ?w1 (agents_h t)) p 0) (task_queue_h w)) =
          sum_list (map (\<lambda>t. dict_get (dicts w (agents_h t)) p 0) (task_queue_h w))"
      by (rule arg_cong[where f = sum_list], rule map_cong) (use held same in auto)
    then show "live_reserved_h ?w1 p = live_reserved_h w p + dict_get ?R p 0"
      by (simp add: live_reserved_h_def q1 same[OF own])
  qed
  have "\<forall>p. allocated_of_h ?w1 p = live_reserved_h ?w1 p"
    using inv by (simp add: a1 l1)
  moreover have "\<forall>t \<in> set (task_queue_h ?w1).
      agents_h t \<noteq> agent_allocation_h ?w1 \<and> positive_request (dicts ?w1 (agents_h t))"
    using held R own same by (auto simp: q1 ref1)
  ultimately show ?thesis by blast
qed

lemma ledger_h_complete:
  assumes inv: "\<forall>p. allocated_of_h w p = live_reserved_h w p"
    and held: "\<forall>t \<in> set (task_queue_h w).
                 agents_h t \<noteq> agent_allocation_h w \<and> positive_request (dicts w (agents_h t))"
  shows "(\<forall>p. allocated_of_h (complete_task_h w T now) p =
              live_reserved_h (complete_task_h w T now) p) \<and>
         (\<forall>t \<in> set (task_queue_h (complete_task_h w T now)).
              agents_h t \<noteq> agent_allocation_h (complete_task_h w T now) \<and>
              positive_request (dicts (complete_task_h w T now) (agents_h t)))"
proof (cases "find (\<lambda>t. name_h t = T) (task_queue_h w)")
  case None
  then have "complete_task_h w T now = w" by (simp add: complete_task_h_def)
  with inv held show ?thesis by simp
next
  case (Some t)
  then have tin: "t \<in> set (task_queue_h w)"
    using find_first_split[OF Some] by auto
  with held have own: "agents_h t \<noteq> agent_allocation_h w"
    and pt: "positive_request (dicts w (agents_h t))" by auto
  let ?R = "dicts w (agents_h t)"
  let ?w1 = "complete_task_h w T now"
  from complete_task_h_found[OF Some own, of now] obtain ys zs where
    q: "task_queue_h w = ys @ t # zs" and
    c: "?w1 = (release_list ?R w)\<lparr>completed_tasks_h := completed_tasks_h w @
           [t\<lparr>status_h := ''completed'', end_time_h := Some now\<rparr>],
         task_queue_h := ys @ zs\<rparr>"
    by blast
  from pt have d: "distinct (map fst ?R)" by (simp add: positive_request_def dict_wf_def)
  have ref1: "agent_allocation_h ?w1 = agent_allocation_h w"
    by (simp add: c release_list_fields)
  have same: "\<And>a. a \<noteq> agent_allocation_h w \<Longrightarrow> dicts ?w1 a = dicts w a"
    by (simp add: c release_list_fields)
  have q1: "task_queue_h ?w1 = ys @ zs" by (simp add: c)
  have nonneg: "\<And>p u. u \<in> set (task_queue_h w) \<Longrightarrow> 0 \<le> dict_get (dicts w (agents_h u)) p 0"
    using held by (auto simp: positive_request_def intro: dict_get_nonneg)
  have rest_nonneg: "\<And>p. 0 \<le> sum_list (map (\<lambda>t. dict_get (dicts w (agents_h t)) p 0) (ys @ zs))"
    by (rule sum_list_nonneg) (use nonneg q in auto)
  have split: "\<And>p. live_reserved_h w p =
      sum_list (map (\<lambda>t. dict_get (dicts w (agents_h t)) p 0) (ys @ zs)) + dict_get ?R p 0"
    by (simp add: live_reserved_h_def q)
  have "\<And>p. allocated_of_h ?w1 p = live_reserved_h ?w1 p"
  proof -
    fix p
    have "allocated_of_h ?w1 p = allocated_of_h (release_list ?R w) p"
      by (simp add: c allocated_of_h_def)
    also have "\<dots> = (if p \<in> fst ` set ?R
        then max 0 (allocated_of_h w p - dict_get ?R p 0) else allocated_of_h w p)"
      by (rule allocated_of_h_release_list[OF d])
    also have "\<dots> = sum_list (map (\<lambda>t. dict_get (dicts w (agents_h t)) p 0) (ys @ zs))"
      using inv split[of p] rest_nonneg[of p] by (auto simp: dict_get_absent)
    also have "\<dots> = sum_list (map (\<lambda>t. dict_get (dicts ?w1 (agents_h t)) p 0) (ys @ zs))"
      by (rule arg_cong[where f = sum_list], rule map_cong) (use held same q in auto)
    also have "\<dots> = live_reserved_h ?w1 p"
      by (simp add: live_reserved_h_def q1)
    finally show "allocated_of_h ?w1 p = live_reserved_h ?w1 p" .
  qed
  moreover have "\<forall>t \<in> set (task_queue_h ?w1).
      agents_h t \<noteq> agent_allocation_h ?w1 \<and> positive_request (dicts ?w1 (agents_h t))"
    using held q same by (auto simp: q1 ref1)
  ultimately show ?thesis by blast
qed

lemma ledger_h_write:
  assumes inv: "\<forall>p. allocated_of_h w p = live_reserved_h w p"
    and held: "\<forall>t \<in> set (task_queue_h w).
                 agents_h t \<noteq> agent_allocation_h w \<and> positive_request (dicts w (agents_h t))"
    and a: "a \<noteq> agent_allocation_h w" "a \<notin> agents_h ` set (task_queue_h w)"
  shows "(\<forall>p. allocated_of_h (caller_write w a d) p = live_reserved_h (caller_write w a d) p) \<and>
         (\<forall>t \<in> set (task_queue_h (caller_write w a d)).
              agents_h t \<noteq> agent_allocation_h (caller_write w a d) \<and>
              positive_request (dicts (caller_write w a d) (agents_h t)))"
proof -
  have "\<And>p. sum_list (map (\<lambda>t. dict_get (dicts (caller_write w a d) (agents_h t)) p 0)
               (task_queue_h w)) =
             sum_list (map (\<lambda>t. dict_get (dicts w (agents_h t)) p 0) (task_queue_h w))"
    by (rule arg_cong[where f = sum_list], rule map_cong)
       (use a in \<open>auto simp: caller_write_def\<close>)
  moreover have "task_queue_h (caller_write w a d) = task_queue_h w"
    by (simp add: caller_write_def)
  ultimately have "\<And>p. live_reserved_h (caller_write w a d) p = live_reserved_h w p"
    by (simp only: live_reserved_h_def)
  moreover have "\<And>p. allocated_of_h (caller_write w a d) p = allocated_of_h w p"
    using a by (simp add: allocated_of_h_def caller_write_def)
  ultimately show ?thesis using inv held a by (auto simp: caller_write_def)
qed

lemma reachable_h_invariant:
  "reachable_h w \<Longrightarrow>
     (\<forall>p. allocated_of_h w p = live_reserved_h w p) \<and>
     (\<forall>t \<in> set (task_queue_h w).
          agents_h t \<noteq> agent_allocation_h w \<and> positive_request (dicts w (agents_h t)))"
proof (induction rule: reachable_h.induct)
  case (initial_h w)
  then show ?case by (simp add: live_reserved_h_def)
next
  case (assign_h w r T now)
  then show ?case using ledger_h_assign by blast
next
  case (complete_h w T now)
  then show ?case using ledger_h_complete by blast
next
  case (write_h w a d)
  then show ?case using ledger_h_write by blast
qed

text \<open>
  Claim C4, amended. In every state reached from a first state with all allocated values
  0 and no live task, by calls of \<open>assign_task\<close> with a request dict of positive counts
  other than the allocation table, by calls of \<open>complete_task\<close>, and by writes of the caller
  that leave alone the allocation table and the dicts of the live tasks, the allocated
  value of every pool is the sum over the live tasks of the count the task holds of that
  pool.
\<close>

theorem ledger_is_aggregate:
  "reachable_h w \<Longrightarrow> allocated_of_h w p = live_reserved_h w p"
  using reachable_h_invariant by blast

text \<open>
  Claim C4 as stated allows every request dict with positive counts. On a new balancer
  with capacity \<open>{"a": 10}\<close>, \<open>assign_task("A", {"a": 3})\<close> and then
  \<open>assign_task("B", lb.agent_allocation)\<close>, whose one count is 3, both succeed. The second
  call raises the entry of the table to 6, and task \<open>B\<close> holds the table: the allocated
  value is 6 and the live tasks hold 3 + 6 = 9.
\<close>

theorem ledger_alias_counterexample:
  "dicts alias_world (agent_allocation_h alias_world) = [(''a'', 0)] \<and>
   task_queue_h alias_world = [] \<and>
   dicts alias_world 2 = [(''a'', 3)] \<and>
   fst (assign_task_h alias_world ''A'' 2 ''09:00'') \<and>
   dicts alias_world_a (agent_allocation_h alias_world_a) = [(''a'', 3)] \<and>
   fst (assign_task_h alias_world_a ''B'' (agent_allocation_h alias_world_a) ''09:30'') \<and>
   map name_h (task_queue_h
     (snd (assign_task_h alias_world_a ''B'' (agent_allocation_h alias_world_a) ''09:30''))) =
     [''A'', ''B''] \<and>
   allocated_of_h
     (snd (assign_task_h alias_world_a ''B'' (agent_allocation_h alias_world_a) ''09:30''))
     ''a'' = 6 \<and>
   live_reserved_h
     (snd (assign_task_h alias_world_a ''B'' (agent_allocation_h alias_world_a) ''09:30''))
     ''a'' = 9"
  by (simp add: alias_world_a_def alias_world_def world_eval)

lemma reachable_h_scenario_world: "reachable_h scenario_world"
proof (rule reachable_h.initial_h)
  show "\<forall>p. allocated_of_h scenario_world p = 0"
    by (simp add: scenario_world_def allocated_of_h_def dict_get_def)
  show "task_queue_h scenario_world = []" by (simp add: scenario_world_def)
qed

theorem ledger_is_aggregate_witness:
  "reachable_h (snd (assign_task_h scenario_world ''T1'' 2 ''09:00'')) \<and>
   fst (assign_task_h scenario_world ''T1'' 2 ''09:00'') \<and>
   live_reserved_h (snd (assign_task_h scenario_world ''T1'' 2 ''09:00'')) ''research'' = 3 \<and>
   allocated_of_h (snd (assign_task_h scenario_world ''T1'' 2 ''09:00'')) ''research'' = 3 \<and>
   reachable_h (complete_task_h (snd (assign_task_h scenario_world ''T1'' 2 ''09:00''))
      ''T1'' ''10:00'') \<and>
   task_queue_h (complete_task_h (snd (assign_task_h scenario_world ''T1'' 2 ''09:00''))
      ''T1'' ''10:00'') = [] \<and>
   allocated_of_h (complete_task_h (snd (assign_task_h scenario_world ''T1'' 2 ''09:00''))
      ''T1'' ''10:00'') ''research'' = 0"
proof -
  let ?w1 = "snd (assign_task_h scenario_world ''T1'' 2 ''09:00'')"
  let ?w2 = "complete_task_h ?w1 ''T1'' ''10:00''"
  have r1: "reachable_h ?w1"
    by (rule reachable_h.assign_h[OF reachable_h_scenario_world])
       (simp_all add: scenario_world_def positive_request_def dict_wf_def)
  then have r2: "reachable_h ?w2" by (rule reachable_h.complete_h)
  have ok: "fst (assign_task_h scenario_world ''T1'' 2 ''09:00'')"
    by (simp add: scenario_world_def world_eval)
  have l1: "live_reserved_h ?w1 ''research'' = 3"
    by (simp add: scenario_world_def world_eval)
  have q2: "task_queue_h ?w2 = []"
    by (simp add: scenario_world_def world_eval)
  then have l2: "live_reserved_h ?w2 ''research'' = 0"
    by (simp add: live_reserved_h_def)
  from ledger_is_aggregate[OF r1, of "''research''"] l1
  have a1: "allocated_of_h ?w1 ''research'' = 3" by simp
  from ledger_is_aggregate[OF r2, of "''research''"] l2
  have a2: "allocated_of_h ?w2 ''research'' = 0" by simp
  from r1 ok l1 a1 r2 q2 a2 show ?thesis by simp
qed

section \<open>Powers of two and the binary exponent\<close>

lemma pow2_powi: "pow2 e = 2 powi e"
  by (simp add: pow2_def power_int_def inverse_eq_divide power_one_over)

lemma pow2_pos: "0 < pow2 e"
  by (simp add: pow2_powi)

lemma pow2_add: "pow2 (a + b) = pow2 a * pow2 b"
  by (simp add: pow2_powi power_int_add)

lemma pow2_diff: "pow2 (a - b) = pow2 a / pow2 b"
  by (simp add: pow2_powi power_int_diff)

lemma pow2_mono: "a \<le> b \<Longrightarrow> pow2 a \<le> pow2 b"
  by (simp add: pow2_powi power_int_increasing)

lemma pow2_strict_mono: "a < b \<Longrightarrow> pow2 a < pow2 b"
  by (simp add: pow2_powi power_int_strict_increasing)

lemma pow2_less_cancel: "pow2 a < pow2 b \<Longrightarrow> a < b"
  using pow2_mono[of b a] by (cases "a < b") auto

lemma pow2_nonneg_int: "0 \<le> e \<Longrightarrow> pow2 e = of_int (2 ^ nat e)"
  by (simp add: pow2_def)

lemma pow2_0: "pow2 0 = 1"
  by (simp add: pow2_def)

lemma pow2_1: "pow2 1 = 2"
  by (simp add: pow2_def)

lemma pow2_Suc: "pow2 (e + 1) = 2 * pow2 e"
  by (simp add: pow2_add pow2_1)

lemma floorlog2_bounds:
  assumes "0 < x"
  shows "pow2 (floorlog2 x) \<le> x \<and> x < pow2 (floorlog2 x + 1)"
proof -
  obtain p q where pq: "quotient_of x = (p, q)" by (cases "quotient_of x")
  then have q: "0 < q" and x: "x = of_int p / of_int q"
    by (simp_all add: quotient_of_denom_pos quotient_of_div)
  with assms have p: "0 < p" by (simp add: zero_less_divide_iff)
  define d where "d = bitlen p - bitlen q"
  have bp: "2 ^ nat (bitlen p - 1) \<le> p" "p < 2 ^ nat (bitlen p)"
    using bitlen_bounds[OF p] by simp_all
  have bq: "2 ^ nat (bitlen q - 1) \<le> q" "q < 2 ^ nat (bitlen q)"
    using bitlen_bounds[OF q] by simp_all
  have lp: "1 \<le> bitlen p" and lq: "1 \<le> bitlen q"
    using p q bitlen_eq_zero_iff[of p] bitlen_eq_zero_iff[of q] bitlen_nonneg[of p] bitlen_nonneg[of q]
    by linarith+
  have rp: "pow2 (bitlen p - 1) \<le> of_int p" "of_int p < pow2 (bitlen p)"
  proof -
    have "(of_int (2 ^ nat (bitlen p - 1)) :: rat) \<le> of_int p" using bp(1) by (simp only: of_int_le_iff)
    then show "pow2 (bitlen p - 1) \<le> of_int p" using lp by (simp add: pow2_nonneg_int)
    have "(of_int p :: rat) < of_int (2 ^ nat (bitlen p))" using bp(2) by (simp only: of_int_less_iff)
    then show "of_int p < pow2 (bitlen p)" using lp by (simp add: pow2_nonneg_int)
  qed
  have rq: "pow2 (bitlen q - 1) \<le> of_int q" "of_int q < pow2 (bitlen q)"
  proof -
    have "(of_int (2 ^ nat (bitlen q - 1)) :: rat) \<le> of_int q" using bq(1) by (simp only: of_int_le_iff)
    then show "pow2 (bitlen q - 1) \<le> of_int q" using lq by (simp add: pow2_nonneg_int)
    have "(of_int q :: rat) < of_int (2 ^ nat (bitlen q))" using bq(2) by (simp only: of_int_less_iff)
    then show "of_int q < pow2 (bitlen q)" using lq by (simp add: pow2_nonneg_int)
  qed
  have qpos: "(0::rat) < of_int q" using q by simp
  have lower: "pow2 (d - 1) \<le> x"
  proof -
    have "pow2 (d - 1) * of_int q \<le> pow2 (d - 1) * pow2 (bitlen q)"
      using rq(2) pow2_pos[of "d - 1"] by (simp add: mult_left_mono less_imp_le)
    also have "\<dots> = pow2 (bitlen p - 1)"
      by (simp add: d_def flip: pow2_add)
    also have "\<dots> \<le> of_int p" by (rule rp(1))
    finally show ?thesis using qpos by (simp add: x pos_le_divide_eq)
  qed
  have upper: "x < pow2 (d + 1)"
  proof -
    have "of_int p < pow2 (bitlen p)" by (rule rp(2))
    also have "\<dots> = pow2 (d + 1) * pow2 (bitlen q - 1)"
      by (simp add: d_def flip: pow2_add)
    also have "\<dots> \<le> pow2 (d + 1) * of_int q"
      using rq(1) pow2_pos[of "d + 1"] by (simp add: mult_left_mono less_imp_le)
    finally show ?thesis using qpos by (simp add: x pos_divide_less_eq)
  qed
  have fl: "floorlog2 x = (if pow2 d \<le> x then d else d - 1)"
    by (simp add: floorlog2_def pq d_def Let_def)
  show ?thesis
  proof (cases "pow2 d \<le> x")
    case True
    with fl upper show ?thesis by simp
  next
    case False
    with fl lower show ?thesis by simp
  qed
qed

lemma floorlog2_unique:
  assumes "pow2 e \<le> x" "x < pow2 (e + 1)"
  shows "floorlog2 x = e"
proof -
  from assms(1) pow2_pos[of e] have "0 < x" by linarith
  from floorlog2_bounds[OF this]
  have b: "pow2 (floorlog2 x) \<le> x" "x < pow2 (floorlog2 x + 1)" by simp_all
  from b(1) assms(2) have "pow2 (floorlog2 x) < pow2 (e + 1)" by linarith
  then have 1: "floorlog2 x < e + 1" by (rule pow2_less_cancel)
  from assms(1) b(2) have "pow2 e < pow2 (floorlog2 x + 1)" by linarith
  then have 2: "e < floorlog2 x + 1" by (rule pow2_less_cancel)
  from 1 2 show ?thesis by linarith
qed

section \<open>Rounding to the nearest integer, ties to even\<close>

lemma round_half_even_error: "\<bar>of_int (round_half_even x) - x\<bar> \<le> 1 / 2"
proof -
  have "of_int \<lfloor>x\<rfloor> \<le> x" "x < of_int \<lfloor>x\<rfloor> + 1" by linarith+
  then show ?thesis by (auto simp: round_half_even_def Let_def)
qed

lemma round_half_even_of_int: "round_half_even (of_int n) = n"
  by (simp add: round_half_even_def)

lemma round_half_even_near:
  assumes "\<bar>x - of_int m\<bar> < 1 / 2"
  shows "round_half_even x = m"
proof -
  from round_half_even_error[of x] assms
  have "\<bar>(of_int (round_half_even x) :: rat) - of_int m\<bar> < 1" by linarith
  then have "\<bar>(of_int (round_half_even x - m) :: rat)\<bar> < 1" by simp
  then have "\<bar>round_half_even x - m\<bar> < 1"
    by (metis of_int_abs of_int_less_1_iff)
  then show ?thesis by linarith
qed

lemma round_half_even_tie_down: "even m \<Longrightarrow> x = of_int m + 1 / 2 \<Longrightarrow> round_half_even x = m"
proof -
  assume m: "even m" and x: "x = of_int m + 1 / 2"
  have "\<lfloor>x\<rfloor> = m" unfolding x by linarith
  with m x show ?thesis by (simp add: round_half_even_def Let_def)
qed

lemma round_half_even_tie_up: "even m \<Longrightarrow> x = of_int m - 1 / 2 \<Longrightarrow> round_half_even x = m"
proof -
  assume m: "even m" and x: "x = of_int m - 1 / 2"
  have "\<lfloor>x\<rfloor> = m - 1" unfolding x by linarith
  with m x show ?thesis by (simp add: round_half_even_def Let_def)
qed

lemma round_half_even_mono:
  assumes "x \<le> y"
  shows "round_half_even x \<le> round_half_even y"
proof (rule ccontr)
  assume "\<not> round_half_even x \<le> round_half_even y"
  then have gt: "round_half_even y + 1 \<le> round_half_even x" by simp
  then have "(of_int (round_half_even y) :: rat) + 1 \<le> of_int (round_half_even x)"
    by (metis of_int_1 of_int_add of_int_le_iff)
  with round_half_even_error[of x] round_half_even_error[of y] assms
  have eq: "x = y" "of_int (round_half_even x) = x + 1 / 2"
    by linarith+
  then show False using gt by simp
qed

section \<open>Rounding to a float\<close>

lemma quantum_pos: "0 < quantum x"
  by (simp add: quantum_def pow2_pos)

lemma quantum_eq:
  assumes "pow2 e \<le> \<bar>x\<bar>" "\<bar>x\<bar> < pow2 (e + 1)"
  shows "quantum x = pow2 (max e (- 1022) - 52)"
  using floorlog2_unique[OF assms] by (simp add: quantum_def)

text \<open>The value that \<open>round_double\<close> computes before it looks at the range.\<close>

lemma round_double_unfold:
  "x \<noteq> 0 \<Longrightarrow> round_double x =
     (if pow2 1024 \<le> of_int (round_half_even (x / quantum x)) * quantum x then PInf
      else if of_int (round_half_even (x / quantum x)) * quantum x \<le> - pow2 1024 then NInf
      else Fin (of_int (round_half_even (x / quantum x)) * quantum x))"
  by (simp add: round_double_def Let_def)

lemma round_double_0: "round_double 0 = Fin 0"
  by (simp add: round_double_def)

lemma round_double_eval:
  assumes "pow2 e \<le> \<bar>x\<bar>" "\<bar>x\<bar> < pow2 (e + 1)"
    and "round_half_even (x / pow2 (max e (- 1022) - 52)) = m"
  shows "round_double x =
     (if pow2 1024 \<le> of_int m * pow2 (max e (- 1022) - 52) then PInf
      else if of_int m * pow2 (max e (- 1022) - 52) \<le> - pow2 1024 then NInf
      else Fin (of_int m * pow2 (max e (- 1022) - 52)))"
proof -
  from assms(1) pow2_pos[of e] have "x \<noteq> 0" by auto
  then show ?thesis
    using assms(3) by (simp add: round_double_unfold quantum_eq[OF assms(1,2)])
qed

lemma round_double_error:
  assumes "round_double x = Fin y"
  shows "\<bar>y - x\<bar> \<le> quantum x / 2"
proof (cases "x = 0")
  case True
  with assms show ?thesis using quantum_pos[of 0] by (simp add: round_double_0)
next
  case False
  let ?m = "round_half_even (x / quantum x)"
  from assms False have y: "y = of_int ?m * quantum x"
    by (simp add: round_double_unfold split: if_splits)
  have "\<bar>of_int ?m - x / quantum x\<bar> \<le> 1 / 2" by (rule round_half_even_error)
  then have "\<bar>of_int ?m - x / quantum x\<bar> * quantum x \<le> 1 / 2 * quantum x"
    using quantum_pos[of x] by (simp add: mult_right_mono less_imp_le)
  moreover have "\<bar>of_int ?m - x / quantum x\<bar> * quantum x = \<bar>of_int ?m * quantum x - x\<bar>"
  proof -
    have "\<bar>of_int ?m - x / quantum x\<bar> * quantum x = \<bar>(of_int ?m - x / quantum x) * quantum x\<bar>"
      using quantum_pos[of x] by (simp add: abs_mult)
    also have "(of_int ?m - x / quantum x) * quantum x = of_int ?m * quantum x - x"
      using quantum_pos[of x] by (simp add: left_diff_distrib)
    finally show ?thesis .
  qed
  ultimately show ?thesis by (simp add: y)
qed

lemma quantum_normal:
  assumes "pow2 (- 1022) \<le> \<bar>x\<bar>"
  shows "quantum x \<le> \<bar>x\<bar> * pow2 (- 52)"
proof -
  from assms pow2_pos[of "- 1022"] have pos: "0 < \<bar>x\<bar>" by linarith
  from floorlog2_bounds[OF pos]
  have b: "pow2 (floorlog2 \<bar>x\<bar>) \<le> \<bar>x\<bar>" "\<bar>x\<bar> < pow2 (floorlog2 \<bar>x\<bar> + 1)" by simp_all
  from assms b(2) have "pow2 (- 1022) < pow2 (floorlog2 \<bar>x\<bar> + 1)" by linarith
  then have "- 1022 < floorlog2 \<bar>x\<bar> + 1" by (rule pow2_less_cancel)
  then have "max (floorlog2 \<bar>x\<bar>) (- 1022) = floorlog2 \<bar>x\<bar>" by simp
  then have "quantum x = pow2 (floorlog2 \<bar>x\<bar>) * pow2 (- 52)"
    by (simp add: quantum_def flip: pow2_add)
  also have "\<dots> \<le> \<bar>x\<bar> * pow2 (- 52)"
    using b(1) pow2_pos[of "- 52"] by (simp add: mult_right_mono less_imp_le)
  finally show ?thesis .
qed

lemma round_double_rel_error:
  assumes "pow2 (- 1022) \<le> \<bar>x\<bar>" "round_double x = Fin y"
  shows "\<bar>y - x\<bar> \<le> \<bar>x\<bar> * pow2 (- 53)"
proof -
  have "\<bar>y - x\<bar> \<le> quantum x / 2" by (rule round_double_error[OF assms(2)])
  also have "\<dots> \<le> \<bar>x\<bar> * pow2 (- 52) / 2" using quantum_normal[OF assms(1)] by simp
  also have "\<dots> = \<bar>x\<bar> * pow2 (- 53)"
    using pow2_Suc[of "- 53"] by simp
  finally show ?thesis .
qed

text \<open>A rational that is a multiple of the spacing around it and is in range is a float:
  rounding leaves it alone.\<close>

lemma round_double_exact:
  assumes "x / quantum x = of_int m" "\<bar>x\<bar> < pow2 1024"
  shows "round_double x = Fin x"
proof (cases "x = 0")
  case True
  then show ?thesis by (simp add: round_double_0)
next
  case False
  have "round_half_even (x / quantum x) = m"
    by (simp only: assms(1) round_half_even_of_int)
  then have "of_int (round_half_even (x / quantum x)) * quantum x = x / quantum x * quantum x"
    by (simp only: assms(1))
  then have "of_int (round_half_even (x / quantum x)) * quantum x = x"
    using quantum_pos[of x] by simp
  with False assms(2) show ?thesis by (simp add: round_double_unfold abs_less_iff)
qed

text \<open>Rounding does not leave the binade: a rational of magnitude below \<open>2^1023\<close> rounds to
  a finite float.\<close>

lemma round_double_finite:
  assumes "\<bar>x\<bar> < pow2 1023"
  shows "\<exists>y. round_double x = Fin y \<and> \<bar>y\<bar> \<le> pow2 1023"
proof (cases "x = 0")
  case True
  then show ?thesis using pow2_pos[of 1023] by (simp add: round_double_0 less_imp_le)
next
  case False
  then have pos: "0 < \<bar>x\<bar>" by simp
  define e where "e = floorlog2 \<bar>x\<bar>"
  define e' where "e' = max e (- 1022)"
  from floorlog2_bounds[OF pos]
  have b: "pow2 e \<le> \<bar>x\<bar>" "\<bar>x\<bar> < pow2 (e + 1)" by (simp_all add: e_def)
  from b(1) assms have "pow2 e < pow2 1023" by linarith
  then have e: "e < 1023" by (rule pow2_less_cancel)
  then have e': "e' \<le> 1022" "e \<le> e'" by (simp_all add: e'_def)
  have q: "quantum x = pow2 (e' - 52)" by (simp add: quantum_def e_def e'_def)
  let ?m = "round_half_even (x / quantum x)"
  have "\<bar>x\<bar> / quantum x < pow2 (e + 1) / quantum x"
    using b(2) quantum_pos[of x] by (simp add: divide_strict_right_mono)
  also have "\<dots> = pow2 (e + 1 - (e' - 52))" by (simp only: q pow2_diff)
  also have "\<dots> \<le> pow2 53" using e'(2) by (intro pow2_mono) simp
  finally have "\<bar>x / quantum x\<bar> < pow2 53" using quantum_pos[of x] by simp
  moreover have "pow2 53 = of_int (2 ^ 53)" by (simp add: pow2_def)
  ultimately have "\<bar>x / quantum x\<bar> < of_int (2 ^ 53)" by (simp only:)
  then have "x / quantum x \<le> of_int (2 ^ 53)" "of_int (- (2 ^ 53)) \<le> x / quantum x"
    unfolding of_int_minus by linarith+
  then have "?m \<le> 2 ^ 53" "- (2 ^ 53) \<le> ?m"
    using round_half_even_mono[of "x / quantum x" "of_int (2 ^ 53)"]
      round_half_even_mono[of "of_int (- (2 ^ 53))" "x / quantum x"]
    by (simp_all only: round_half_even_of_int)
  then have "\<bar>?m\<bar> \<le> 2 ^ 53" by simp
  then have "\<bar>(of_int ?m :: rat)\<bar> \<le> of_int (2 ^ 53)"
    by (simp only: of_int_le_iff flip: of_int_abs)
  then have "\<bar>(of_int ?m :: rat)\<bar> \<le> pow2 53" by (simp add: pow2_def)
  then have "\<bar>of_int ?m * quantum x\<bar> \<le> pow2 53 * quantum x"
    using quantum_pos[of x] by (simp add: abs_mult mult_right_mono less_imp_le)
  also have "\<dots> = pow2 (e' + 1)" by (simp add: q add.commute flip: pow2_add)
  also have "\<dots> \<le> pow2 1023" using e'(1) by (intro pow2_mono) simp
  finally have bound: "\<bar>of_int ?m * quantum x\<bar> \<le> pow2 1023" .
  moreover have "pow2 1023 < pow2 1024" by (intro pow2_strict_mono) simp
  ultimately have "round_double x = Fin (of_int ?m * quantum x)"
    using False by (simp add: round_double_unfold abs_le_iff)
  with bound show ?thesis by simp
qed

section \<open>Floats are fixed points of rounding; the two literals\<close>

text \<open>Every \<open>n * 2^k\<close> with \<open>\<bar>n\<bar> < 2^53\<close> and \<open>k \<ge> -1074\<close> in range is a float.\<close>

lemma round_double_dyadic:
  assumes n: "\<bar>n\<bar> < 2 ^ 53" and k: "- 1074 \<le> k"
    and r: "\<bar>of_int n * pow2 k\<bar> < pow2 1024"
  shows "round_double (of_int n * pow2 k) = Fin (of_int n * pow2 k)"
proof (cases "of_int n * pow2 k = 0")
  case True
  then show ?thesis by (simp only: round_double_0)
next
  case False
  define x where "x = of_int n * pow2 k"
  from False have pos: "0 < \<bar>x\<bar>" by (simp add: x_def)
  define e' where "e' = max (floorlog2 \<bar>x\<bar>) (- 1022)"
  from floorlog2_bounds[OF pos] have b: "pow2 (floorlog2 \<bar>x\<bar>) \<le> \<bar>x\<bar>" by simp
  have "\<bar>(of_int n :: rat)\<bar> < of_int (2 ^ 53)"
    using n by (simp only: of_int_less_iff flip: of_int_abs)
  then have "\<bar>(of_int n :: rat)\<bar> < pow2 53" by (simp add: pow2_def)
  then have "\<bar>x\<bar> < pow2 53 * pow2 k"
    using pow2_pos[of k] by (simp add: x_def abs_mult)
  also have "\<dots> = pow2 (53 + k)" by (simp only: pow2_add)
  finally have "pow2 (floorlog2 \<bar>x\<bar>) < pow2 (53 + k)" using b by linarith
  then have "floorlog2 \<bar>x\<bar> < 53 + k" by (rule pow2_less_cancel)
  with k have d: "0 \<le> k - (e' - 52)" by (simp add: e'_def)
  have q: "quantum x = pow2 (e' - 52)" by (simp add: quantum_def e'_def)
  have "x / quantum x = x / pow2 (e' - 52)" by (simp only: q)
  also have "\<dots> = of_int n * (pow2 k / pow2 (e' - 52))" by (simp add: x_def)
  also have "\<dots> = of_int n * pow2 (k - (e' - 52))" by (simp only: pow2_diff)
  also have "\<dots> = of_int (n * 2 ^ nat (k - (e' - 52)))"
    using d by (simp add: pow2_nonneg_int)
  finally have "x / quantum x = of_int (n * 2 ^ nat (k - (e' - 52)))" .
  from round_double_exact[OF this] r show ?thesis by (simp add: x_def)
qed

lemma round_double_of_int:
  assumes "\<bar>n\<bar> < 2 ^ 53"
  shows "round_double (of_int n) = Fin (of_int n)"
proof -
  have "\<bar>(of_int n :: rat)\<bar> < of_int (2 ^ 53)"
    using assms by (simp only: of_int_less_iff flip: of_int_abs)
  then have "\<bar>(of_int n :: rat)\<bar> < pow2 53" by (simp add: pow2_def)
  also have "pow2 53 < pow2 1024" by (intro pow2_strict_mono) simp
  finally have "\<bar>of_int n * pow2 0\<bar> < pow2 1024" by (simp add: pow2_0)
  from round_double_dyadic[OF assms _ this] show ?thesis by (simp add: pow2_0)
qed

lemma float_of_int_exact: "\<bar>n\<bar> < 2 ^ 53 \<Longrightarrow> float_of_int n = Inr (Fin (of_int n))"
  by (simp add: float_of_int_def round_double_of_int)

lemma lit_1_5_eq: "lit_1_5 = Fin (3 / 2)"
proof -
  have "\<bar>of_int 3 * pow2 (- 1)\<bar> < pow2 1024"
  proof -
    have "pow2 1 < pow2 1024" by (intro pow2_strict_mono) simp
    then show ?thesis by (simp add: pow2_def)
  qed
  from round_double_dyadic[of 3 "- 1", OF _ _ this] show ?thesis
    by (simp add: lit_1_5_def pow2_def)
qed

lemma lit_0_7_eq: "lit_0_7 = Fin double_0_7"
proof -
  have a: "pow2 (- 1) \<le> \<bar>7 / 10 :: rat\<bar>" "\<bar>7 / 10 :: rat\<bar> < pow2 (- 1 + 1)"
    by (simp_all add: pow2_def)
  have m: "round_half_even (7 / 10 / pow2 (max (- 1) (- 1022) - 52)) = 6305039478318694"
    by (rule round_half_even_near) (simp add: pow2_def)
  have "pow2 0 < pow2 1024" by (intro pow2_strict_mono) simp
  then have big: "1 < pow2 1024" by (simp add: pow2_0)
  have v: "of_int 6305039478318694 * pow2 (max (- 1) (- 1022) - 52) =
      (6305039478318694 / 9007199254740992 :: rat)"
    by (simp add: pow2_def)
  from round_double_eval[OF a m] big show ?thesis
    unfolding v lit_0_7_def double_0_7_def by simp
qed

section \<open>The conversions \<open>int(capacity * 1.5)\<close> and \<open>int(capacity * 0.7)\<close>\<close>

lemma floor_half: "\<lfloor>(of_int a :: rat) / 2\<rfloor> = a div 2"
  using floor_divide_of_int_eq[of a 2, where ?'a = rat] by simp

text \<open>With \<open>3\<bar>c\<bar> < 2^53\<close> the product \<open>c * 1.5\<close> is exact, so \<open>int(c * 1.5)\<close> is \<open>3c/2\<close>
  truncated toward zero.\<close>

lemma scale_capacity_up_exact:
  assumes "3 * \<bar>c\<bar> < 2 ^ 53"
  shows "scale_capacity_up c = Inr (if 0 \<le> c then (3 * c) div 2 else - ((3 * - c) div 2))"
proof -
  from assms have c: "\<bar>c\<bar> < 2 ^ 53" by linarith
  from assms have c3: "\<bar>3 * c\<bar> < 2 ^ 53" by (simp add: abs_mult)
  have x: "(of_int c :: rat) * (3 / 2) = of_int (3 * c) * pow2 (- 1)"
    by (simp add: pow2_def)
  have "\<bar>(of_int (3 * c) :: rat)\<bar> < of_int (2 ^ 53)"
    using c3 by (simp only: of_int_less_iff flip: of_int_abs)
  then have "\<bar>(of_int (3 * c) :: rat) * pow2 (- 1)\<bar> < pow2 53"
    by (simp add: pow2_def abs_mult)
  also have "pow2 53 < pow2 1024" by (intro pow2_strict_mono) simp
  finally have r: "\<bar>(of_int (3 * c) :: rat) * pow2 (- 1)\<bar> < pow2 1024" .
  have k: "(- 1074 :: int) \<le> - 1" by simp
  have v: "(of_int (3 * c) :: rat) * pow2 (- 1) = of_int (3 * c) / 2"
    by (simp add: pow2_def)
  have v': "(of_int c :: rat) * (3 / 2) = of_int (3 * c) / 2" by simp
  have rd: "round_double (of_int c * (3 / 2)) = Fin (of_int (3 * c) / 2)"
    using round_double_dyadic[OF c3 k r] by (simp only: v v')
  have fl: "\<lfloor>(of_int (3 * c) :: rat) / 2\<rfloor> = (3 * c) div 2"
    by (rule floor_half)
  have ce: "\<lceil>(of_int (3 * c) :: rat) / 2\<rceil> = - ((3 * - c) div 2)"
  proof -
    have "\<lceil>(of_int (3 * c) :: rat) / 2\<rceil> = - \<lfloor>(of_int (3 * - c) :: rat) / 2\<rfloor>"
      by (simp add: ceiling_def)
    also have "\<lfloor>(of_int (3 * - c) :: rat) / 2\<rfloor> = (3 * - c) div 2"
      by (rule floor_half)
    finally show ?thesis .
  qed
  have sgn: "(0 \<le> (of_int (3 * c) :: rat) / 2) = (0 \<le> c)" by simp
  have "scale_capacity_up c = py_int (Fin (of_int (3 * c) / 2))"
    by (simp only: scale_capacity_up_def int_mul_float_def float_of_int_exact[OF c] lit_1_5_eq
        ebind.simps float_mul.simps rd)
  also have "\<dots> = Inr (if 0 \<le> c then (3 * c) div 2 else - ((3 * - c) div 2))"
    by (simp only: py_int.simps sgn fl ce)
  finally show ?thesis .
qed

text \<open>For a capacity that is not negative, \<open>int(c * 1.5)\<close> is at least \<open>c\<close> whenever it is
  computed without an exception.\<close>

lemma pow2_m53_le: "pow2 (- 53) \<le> 1 / 8"
proof -
  have "pow2 (- 53) \<le> pow2 (- 3)" by (intro pow2_mono) simp
  then show ?thesis by (simp add: pow2_def)
qed

lemma round_double_lower:
  assumes "1 \<le> x" "round_double x = Fin y"
  shows "7 / 8 * x \<le> y"
proof -
  have "pow2 (- 1022) \<le> pow2 0" by (intro pow2_mono) simp
  with assms(1) have "pow2 (- 1022) \<le> \<bar>x\<bar>" by (simp add: pow2_0)
  from round_double_rel_error[OF this assms(2)]
  have "\<bar>y - x\<bar> \<le> \<bar>x\<bar> * pow2 (- 53)" .
  also have "\<dots> \<le> \<bar>x\<bar> * (1 / 8)" using pow2_m53_le by (intro mult_left_mono) simp_all
  finally have "\<bar>y - x\<bar> \<le> \<bar>x\<bar> * (1 / 8)" .
  then show ?thesis using assms(1) by linarith
qed

lemma scale_capacity_up_ge:
  assumes c: "0 \<le> c" and n: "scale_capacity_up c = Inr n"
  shows "c \<le> n"
proof (cases "c = 0")
  case True
  with n show ?thesis
    by (simp add: scale_capacity_up_def int_mul_float_def float_of_int_def round_double_0
        lit_1_5_eq)
next
  case False
  with c have c1: "(1 :: rat) \<le> of_int c" by simp
  from n obtain y where y: "round_double (of_int c) = Fin y"
    by (cases "round_double (of_int c)")
      (simp_all add: scale_capacity_up_def int_mul_float_def float_of_int_def)
  from n y obtain w where w: "round_double (y * (3 / 2)) = Fin w"
    by (cases "round_double (y * (3 / 2))")
      (simp_all add: scale_capacity_up_def int_mul_float_def float_of_int_def lit_1_5_eq)
  from round_double_lower[OF c1 y] have ylow: "7 / 8 * of_int c \<le> y" .
  with c1 have "1 \<le> y * (3 / 2)" by simp
  from round_double_lower[OF this w] have "7 / 8 * (y * (3 / 2)) \<le> w" .
  with ylow c1 have wc: "of_int c \<le> w" by simp
  with c1 have "0 \<le> w" by simp
  with n y w have "n = \<lfloor>w\<rfloor>"
    by (simp add: scale_capacity_up_def int_mul_float_def float_of_int_def lit_1_5_eq)
  with wc show ?thesis by (simp add: le_floor_iff)
qed

lemma double_0_7_bounds: "0 < double_0_7" "double_0_7 < 1"
  by (simp_all add: double_0_7_def)

lemma double_0_7_gap: "double_0_7 = 7 / 10 - 2 / 5 / 9007199254740992"
  by (simp add: double_0_7_def)

text \<open>\<open>int(c * 0.7)\<close> raises nothing when \<open>\<bar>c\<bar> < 2^1023\<close>.\<close>

lemma scale_capacity_down_finite:
  assumes "\<bar>c\<bar> < 2 ^ 1023"
  shows "\<exists>n. scale_capacity_down c = Inr n"
proof -
  have "\<bar>(of_int c :: rat)\<bar> < of_int (2 ^ 1023)"
    using assms by (simp only: of_int_less_iff flip: of_int_abs)
  then have "\<bar>(of_int c :: rat)\<bar> < pow2 1023" by (simp add: pow2_def)
  from round_double_finite[OF this] obtain y where
    y: "round_double (of_int c) = Fin y" "\<bar>y\<bar> \<le> pow2 1023" by blast
  have "\<bar>y * double_0_7\<bar> = \<bar>y\<bar> * double_0_7"
    using double_0_7_bounds by (simp add: abs_mult)
  also have "\<dots> \<le> pow2 1023 * double_0_7"
    using y(2) double_0_7_bounds by (intro mult_right_mono) simp_all
  also have "\<dots> < pow2 1023 * 1"
    using pow2_pos[of 1023] double_0_7_bounds by (intro mult_strict_left_mono) simp_all
  finally have "\<bar>y * double_0_7\<bar> < pow2 1023" by simp
  from round_double_finite[OF this] obtain w where w: "round_double (y * double_0_7) = Fin w"
    by blast
  show ?thesis
    by (simp add: scale_capacity_down_def int_mul_float_def float_of_int_def y(1) lit_0_7_eq w)
qed

text \<open>Up to \<open>2^49\<close> the result is \<open>\<lfloor>7c/10\<rfloor>\<close> or one less: the float \<open>0.7\<close> is below 7/10.\<close>

lemma scale_capacity_down_bounds:
  assumes c: "0 \<le> c" "c \<le> 2 ^ 49"
  shows "\<exists>n. scale_capacity_down c = Inr n \<and> (7 * c) div 10 - 1 \<le> n \<and> n \<le> (7 * c) div 10"
proof (cases "c = 0")
  case True
  then show ?thesis
    by (simp add: scale_capacity_down_def int_mul_float_def float_of_int_def round_double_0
        lit_0_7_eq)
next
  case False
  let ?F = "(7 * c) div 10"
  define x :: rat where "x = of_int c"
  from False c have x1: "1 \<le> x" by (simp add: x_def)
  have "(of_int c :: rat) \<le> of_int (2 ^ 49)" using c(2) by (simp only: of_int_le_iff)
  then have xu: "x \<le> 562949953421312" by (simp add: x_def)
  from c have c53: "\<bar>c\<bar> < 2 ^ 53" by simp
  have fc: "float_of_int c = Inr (Fin x)" by (simp add: float_of_int_exact[OF c53] x_def)
  define z where "z = x * double_0_7"
  define g where "g = x * (2 / 5) / 9007199254740992"
  have zx: "z = 7 * x / 10 - g"
    by (simp add: z_def g_def double_0_7_gap right_diff_distrib)
  have g0: "0 \<le> g" using x1 by (simp add: g_def)
  have "1 * double_0_7 \<le> x * double_0_7"
    using x1 double_0_7_bounds by (intro mult_right_mono) simp_all
  moreover have "1 / 2 \<le> double_0_7" by (simp add: double_0_7_def)
  ultimately have zl: "1 / 2 \<le> z" unfolding z_def by linarith
  have zu: "z \<le> 7 * x / 10" using g0 zx by simp
  have "pow2 (- 1022) \<le> pow2 (- 1)" by (intro pow2_mono) simp
  then have "pow2 (- 1022) \<le> 1 / 2" by (simp add: pow2_def)
  with zl have zn: "pow2 (- 1022) \<le> \<bar>z\<bar>" by simp
  have "\<bar>z\<bar> < pow2 1023"
  proof -
    have "z < 562949953421312" using xu zu by linarith
    also have "(562949953421312 :: rat) = pow2 49" by (simp add: pow2_def)
    also have "pow2 49 < pow2 1023" by (intro pow2_strict_mono) simp
    finally show ?thesis using zl by simp
  qed
  from round_double_finite[OF this] obtain w where w: "round_double z = Fin w" by blast
  from round_double_rel_error[OF zn w] have "\<bar>w - z\<bar> \<le> \<bar>z\<bar> * pow2 (- 53)" .
  moreover have "pow2 (- 53) = 1 / 9007199254740992" by (simp add: pow2_def)
  ultimately have err: "\<bar>w - z\<bar> \<le> z / 9007199254740992" using zl by simp
  have small: "z / 9007199254740992 \<le> 1 / 16" using zu xu by simp
  have gap: "g \<le> 1 / 16" using xu by (simp add: g_def)
  have "7 * c = 10 * ?F + (7 * c) mod 10" by simp
  moreover have "0 \<le> (7 * c) mod 10" "(7 * c) mod 10 \<le> 9" by simp_all
  ultimately have "10 * ?F \<le> 7 * c" "7 * c \<le> 10 * ?F + 9" by linarith+
  then have "(of_int (10 * ?F) :: rat) \<le> of_int (7 * c)" "(of_int (7 * c) :: rat) \<le> of_int (10 * ?F + 9)"
    by (simp_all only: of_int_le_iff)
  then have F: "of_int ?F \<le> 7 * x / 10" "7 * x / 10 \<le> of_int ?F + 9 / 10"
    by (simp_all add: x_def)
  have wz: "w \<le> z + 1 / 16" "z - 1 / 16 \<le> w" using err small by linarith+
  have wpos: "0 \<le> w" using wz zl by linarith
  have up: "w < of_int ?F + 1" using wz(1) zu F(2) by linarith
  have "7 * x / 10 - 1 / 16 \<le> z" using zx gap by linarith
  then have lo: "of_int (?F - 1) \<le> w" using wz(2) F(1) by simp
  have n: "scale_capacity_down c = Inr \<lfloor>w\<rfloor>"
    using wpos by (simp add: scale_capacity_down_def int_mul_float_def fc lit_0_7_eq w flip: z_def)
  have "w < of_int (?F + 1)" using up by simp
  then have "\<lfloor>w\<rfloor> < ?F + 1" by (simp only: floor_less_iff)
  moreover have "?F - 1 \<le> \<lfloor>w\<rfloor>" using lo by (simp only: le_floor_iff)
  ultimately show ?thesis using n by simp
qed

text \<open>Two values of \<open>int(c * 0.7)\<close>: at 20 the product is a tie that rounds up to 14, at 90
  it rounds down to the float below 63.\<close>

lemma scale_capacity_down_20: "scale_capacity_down 20 = Inr 14"
proof -
  have a: "pow2 3 \<le> \<bar>20 * double_0_7\<bar>" "\<bar>20 * double_0_7\<bar> < pow2 (3 + 1)"
    by (simp_all add: pow2_def double_0_7_def)
  have m: "round_half_even (20 * double_0_7 / pow2 (max 3 (- 1022) - 52)) = 7881299347898368"
    by (rule round_half_even_tie_up) (simp_all add: pow2_def double_0_7_def)
  have "pow2 4 < pow2 1024" by (intro pow2_strict_mono) simp
  then have big: "16 < pow2 1024" by (simp add: pow2_def)
  have v: "of_int 7881299347898368 * pow2 (max 3 (- 1022) - 52) = (14 :: rat)" by (simp add: pow2_def)
  from round_double_eval[OF a m] big have "round_double (20 * double_0_7) = Fin 14"
    unfolding v by simp
  then show ?thesis
    by (simp add: scale_capacity_down_def int_mul_float_def float_of_int_exact lit_0_7_eq)
qed

lemma scale_capacity_down_90: "scale_capacity_down 90 = Inr 62"
proof -
  have a: "pow2 5 \<le> \<bar>90 * double_0_7\<bar>" "\<bar>90 * double_0_7\<bar> < pow2 (5 + 1)"
    by (simp_all add: pow2_def double_0_7_def)
  have m: "round_half_even (90 * double_0_7 / pow2 (max 5 (- 1022) - 52)) = 8866461766385663"
    by (rule round_half_even_near) (simp add: pow2_def double_0_7_def)
  have "pow2 6 < pow2 1024" by (intro pow2_strict_mono) simp
  then have big: "64 < pow2 1024" by (simp add: pow2_def)
  have v: "of_int 8866461766385663 * pow2 (max 5 (- 1022) - 52) =
     (8866461766385663 / 140737488355328 :: rat)" by (simp add: pow2_def)
  from round_double_eval[OF a m] big
  have "round_double (90 * double_0_7) = Fin (8866461766385663 / 140737488355328)"
    unfolding v by simp
  moreover have "\<lfloor>8866461766385663 / 140737488355328 :: rat\<rfloor> = 62"
    by (rule floor_unique) simp_all
  ultimately show ?thesis
    by (simp add: scale_capacity_down_def int_mul_float_def float_of_int_exact lit_0_7_eq)
qed

section \<open>The capacity invariant, pool by pool\<close>

lemma capacity_of_allocate_agent [simp]:
  "capacity_of (snd (allocate_agent s k c)) p = capacity_of s p"
  by (simp add: capacity_of_def allocate_agent_fields)

lemma capacity_of_release_agent [simp]:
  "capacity_of (release_agent s k c) p = capacity_of s p"
  by (simp add: capacity_of_def release_agent_fields)

lemma pool_ok_allocate_agent:
  "pool_ok s p \<Longrightarrow> 0 < c \<Longrightarrow> pool_ok (snd (allocate_agent s k c)) p"
  by (auto simp: pool_ok_def allocate_agent_def get_available_agents_def
      allocated_of_def capacity_of_def Let_def dict_get_dict_set)

lemma pool_ok_allocate_loop:
  "pool_ok s p \<Longrightarrow> \<forall>(k, c) \<in> set R. 0 < c \<Longrightarrow> pool_ok (allocate_loop R s) p"
proof (induction R arbitrary: s)
  case Nil
  then show ?case by simp
next
  case (Cons a R)
  obtain k c where a: "a = (k, c)" by (cases a)
  with Cons.prems have "pool_ok (snd (allocate_agent s k c)) p"
    by (auto intro: pool_ok_allocate_agent)
  with Cons.IH[of "snd (allocate_agent s k c)"] Cons.prems(2) a show ?case by simp
qed

lemma pool_ok_queue_update [simp]:
  "pool_ok (s\<lparr>task_queue := q\<rparr>) p = pool_ok s p"
  "pool_ok (s\<lparr>completed_tasks := q\<rparr>) p = pool_ok s p"
  by (simp_all add: pool_ok_def allocated_of_def capacity_of_def)

lemma pool_ok_assign_task:
  "pool_ok s p \<Longrightarrow> \<forall>(k, c) \<in> set R. 0 < c \<Longrightarrow> pool_ok (snd (assign_task s T R now)) p"
  by (simp add: assign_task_def Let_def pool_ok_allocate_loop)

lemma pool_ok_release_agent:
  "pool_ok s p \<Longrightarrow> 0 \<le> c \<Longrightarrow> pool_ok (release_agent s k c) p"
  by (auto simp: pool_ok_def allocated_of_release_agent)

lemma pool_ok_release_loop:
  "pool_ok s p \<Longrightarrow> \<forall>(k, c) \<in> set R. 0 \<le> c \<Longrightarrow> pool_ok (release_loop R s) p"
proof (induction R arbitrary: s)
  case Nil
  then show ?case by simp
next
  case (Cons a R)
  obtain k c where a: "a = (k, c)" by (cases a)
  with Cons.prems have "pool_ok (release_agent s k c) p"
    by (auto intro: pool_ok_release_agent)
  with Cons.IH[of "release_agent s k c"] Cons.prems(2) a show ?case by simp
qed

lemma pool_ok_complete_task:
  assumes "pool_ok s p"
    and "\<And>t. find (\<lambda>t. name t = T) (task_queue s) = Some t \<Longrightarrow> \<forall>(k, c) \<in> set (agents t). 0 \<le> c"
  shows "pool_ok (complete_task s T now) p"
proof (cases "find (\<lambda>t. name t = T) (task_queue s)")
  case None
  with assms(1) show ?thesis by (simp add: complete_task_def)
next
  case (Some t)
  from assms(2)[OF Some] assms(1) have "pool_ok (release_loop (agents t) s) p"
    by (rule pool_ok_release_loop[rotated])
  with Some show ?thesis by (simp add: complete_task_def Let_def)
qed

lemma dict_get_Some: "map_of d k = Some v \<Longrightarrow> dict_get d k dflt = v"
  by (simp add: dict_get_def)

lemma pool_ok_scale_up_loop:
  "pool_ok s p \<Longrightarrow> pool_ok (snd (scale_up_loop ks s)) p"
proof (induction ks arbitrary: s)
  case Nil
  then show ?case by simp
next
  case (Cons k ks)
  show ?case
  proof (cases "map_of (agent_capacity s) k")
    case None
    with Cons.prems show ?thesis by simp
  next
    case (Some c)
    show ?thesis
    proof (cases "scale_capacity_up c")
      case (Inl e)
      with Some Cons.prems show ?thesis by simp
    next
      case (Inr n)
      let ?s' = "s\<lparr>agent_capacity := dict_set k n (agent_capacity s)\<rparr>"
      have "pool_ok ?s' p"
      proof (cases "p = k")
        case True
        with Cons.prems Some have "0 \<le> c" "allocated_of s p \<le> c"
          by (simp_all add: pool_ok_def capacity_of_def dict_get_Some)
        with scale_capacity_up_ge[OF _ Inr] Cons.prems True show ?thesis
          by (simp add: pool_ok_def capacity_of_def allocated_of_def dict_get_dict_set)
      next
        case False
        with Cons.prems show ?thesis
          by (simp add: pool_ok_def capacity_of_def allocated_of_def dict_get_dict_set)
      qed
      from Cons.IH[OF this] Some Inr show ?thesis by simp
    qed
  qed
qed

lemma pool_ok_scale_down_loop:
  "pool_ok s p \<Longrightarrow> pool_ok (snd (scale_down_loop items s)) p"
proof (induction items arbitrary: s)
  case Nil
  then show ?case by simp
next
  case (Cons a items)
  obtain k c where a: "a = (k, c)" by (cases a)
  show ?case
  proof (cases "scale_capacity_down c")
    case (Inl e)
    with a Cons.prems show ?thesis by simp
  next
    case (Inr n)
    let ?s' = "s\<lparr>agent_capacity :=
        dict_set k (max (dict_get (agent_allocation s) k 0 + 2) n) (agent_capacity s)\<rparr>"
    have "pool_ok ?s' p" using Cons.prems
      by (auto simp: pool_ok_def capacity_of_def allocated_of_def dict_get_dict_set
          le_max_iff_disj)
    from Cons.IH[OF this] a Inr show ?thesis by (simp add: Let_def)
  qed
qed

lemma pool_ok_auto_scale: "pool_ok s p \<Longrightarrow> pool_ok (snd (auto_scale s)) p"
  by (auto simp: auto_scale_def pool_ok_scale_up_loop pool_ok_scale_down_loop
      split: sum.splits bool.splits)

text \<open>
  Claim C2, amended. From a state in which \<open>0 \<le> allocated[p] \<le> capacity[p]\<close> holds for
  every pool of a set \<open>P\<close>, whichever the set, each of these calls ends in such a state:
  \<open>assign_task\<close> with positive requested counts, \<open>complete_task\<close> when the task it completes has no negative reserved
  count, \<open>allocate_agent\<close> with a positive count, \<open>release_agent\<close> with a count that is not
  negative, and \<open>auto_scale\<close> (also when it stops on an exception).
\<close>

theorem capacity_invariant_preserved:
  assumes "capacity_invariant P s"
  shows "((\<forall>(p, c) \<in> set R. 0 < c) \<longrightarrow> capacity_invariant P (snd (assign_task s T R now))) \<and>
         ((\<forall>t. find (\<lambda>t. name t = T) (task_queue s) = Some t \<longrightarrow>
                (\<forall>(p, c) \<in> set (agents t). 0 \<le> c)) \<longrightarrow>
            capacity_invariant P (complete_task s T now)) \<and>
         (0 < n \<longrightarrow> capacity_invariant P (snd (allocate_agent s k n))) \<and>
         (0 \<le> n \<longrightarrow> capacity_invariant P (release_agent s k n)) \<and>
         capacity_invariant P (snd (auto_scale s))"
proof (intro conjI impI)
  assume "\<forall>(p, c) \<in> set R. 0 < c"
  with assms show "capacity_invariant P (snd (assign_task s T R now))"
    by (simp add: capacity_invariant_def pool_ok_assign_task)
next
  assume "\<forall>t. find (\<lambda>t. name t = T) (task_queue s) = Some t \<longrightarrow>
                (\<forall>(p, c) \<in> set (agents t). 0 \<le> c)"
  with assms show "capacity_invariant P (complete_task s T now)"
    by (simp add: capacity_invariant_def pool_ok_complete_task)
next
  assume "0 < n"
  with assms show "capacity_invariant P (snd (allocate_agent s k n))"
    by (simp add: capacity_invariant_def pool_ok_allocate_agent)
next
  assume "0 \<le> n"
  with assms show "capacity_invariant P (release_agent s k n)"
    by (simp add: capacity_invariant_def pool_ok_release_agent)
next
  from assms show "capacity_invariant P (snd (auto_scale s))"
    by (simp add: capacity_invariant_def pool_ok_auto_scale)
qed

text \<open>
  Claim C2 as stated lets \<open>release_agent\<close> take any count. From capacity 10 with 8
  allocated, \<open>release_agent("research", -5)\<close> computes \<open>max(0, 8 + 5) = 13\<close>, above the
  capacity.
\<close>

theorem release_negative_count_counterexample:
  "capacity_invariant UNIV nearly_full_state \<and>
   allocated_of (release_agent nearly_full_state ''research'' (- 5)) ''research'' = 13 \<and>
   capacity_of (release_agent nearly_full_state ''research'' (- 5)) ''research'' = 10"
  by (simp add: capacity_invariant_def pool_ok_def nearly_full_state_def allocated_of_def
      capacity_of_def release_agent_def dict_get_def)

theorem capacity_invariant_preserved_witness:
  "capacity_invariant UNIV scenario_t1 \<and>
   capacity_invariant UNIV (snd (assign_task scenario_t1 ''T1'' [(''research'', 4)] ''10:00'')) \<and>
   capacity_invariant UNIV (complete_task scenario_t1 ''T1'' ''10:00'') \<and>
   capacity_invariant UNIV (snd (allocate_agent scenario_t1 ''dev'' 1)) \<and>
   capacity_invariant UNIV (release_agent scenario_t1 ''dev'' 1) \<and>
   capacity_invariant UNIV (snd (auto_scale scenario_t1))"
proof -
  have h0: "capacity_invariant UNIV scenario_t1"
    by (simp add: capacity_invariant_def pool_ok_def scenario_t1_eq allocated_of_def
        capacity_of_def dict_get_def)
  have h1: "\<forall>(p, c) \<in> set [(''research'', 4 :: int)]. 0 < c" by simp
  have h2: "\<forall>t. find (\<lambda>t. name t = ''T1'') (task_queue scenario_t1) = Some t \<longrightarrow>
      (\<forall>(p, c) \<in> set (agents t). 0 \<le> c)"
    by (auto simp: scenario_t1_eq)
  from capacity_invariant_preserved[OF h0, of "[(''research'', 4)]" "''T1''" "''10:00''" 1 "''dev''"]
    h0 h1 h2
  show ?thesis by simp
qed

section \<open>The iterations of \<open>auto_scale\<close> in closed form\<close>

lemma dict_set_middle:
  "k \<notin> fst ` set pre \<Longrightarrow> dict_set k v (pre @ (k, c) # rest) = pre @ (k, v) # rest"
  by (induction pre) auto

lemma map_of_middle:
  "k \<notin> fst ` set pre \<Longrightarrow> map_of (pre @ (k, c) # rest) k = Some c"
  by (induction pre) auto

lemma scale_up_loop_closed:
  assumes "agent_capacity s = pre @ items"
    and "distinct (map fst (pre @ items))"
    and "\<forall>(k, c) \<in> set items. scale_capacity_up c = Inr (f c)"
  shows "scale_up_loop (map fst items) s =
           (None, s\<lparr>agent_capacity := pre @ map (\<lambda>(k, c). (k, f c)) items\<rparr>)"
  using assms
proof (induction items arbitrary: pre s)
  case Nil
  then show ?case by simp
next
  case (Cons a items)
  obtain k c where a: "a = (k, c)" by (cases a)
  from Cons.prems(2) a have knot: "k \<notin> fst ` set pre" by auto
  from Cons.prems(3) a have up: "scale_capacity_up c = Inr (f c)" by simp
  let ?s' = "s\<lparr>agent_capacity := dict_set k (f c) (agent_capacity s)\<rparr>"
  have cap': "agent_capacity ?s' = (pre @ [(k, f c)]) @ items"
    using knot by (simp add: Cons.prems(1) a dict_set_middle)
  have d': "distinct (map fst ((pre @ [(k, f c)]) @ items))"
    using Cons.prems(2) a by simp
  have rest: "\<forall>(k, c) \<in> set items. scale_capacity_up c = Inr (f c)"
    using Cons.prems(3) by simp
  have look: "map_of (agent_capacity s) k = Some c"
    unfolding Cons.prems(1) a using knot by (rule map_of_middle)
  have "scale_up_loop (map fst (a # items)) s = scale_up_loop (map fst items) ?s'"
    by (simp add: a look up)
  also have "\<dots> = (None, ?s'\<lparr>agent_capacity := (pre @ [(k, f c)]) @ map (\<lambda>(k, c). (k, f c)) items\<rparr>)"
    by (rule Cons.IH[OF cap' d' rest])
  finally show ?case by (simp add: a)
qed

lemma scale_down_loop_closed:
  assumes "agent_capacity s = pre @ items"
    and "distinct (map fst (pre @ items))"
    and "\<forall>(k, c) \<in> set items. scale_capacity_down c = Inr (f c)"
  shows "scale_down_loop items s =
           (None, s\<lparr>agent_capacity :=
              pre @ map (\<lambda>(k, c). (k, max (allocated_of s k + 2) (f c))) items\<rparr>)"
  using assms
proof (induction items arbitrary: pre s)
  case Nil
  then show ?case by simp
next
  case (Cons a items)
  obtain k c where a: "a = (k, c)" by (cases a)
  from Cons.prems(2) a have knot: "k \<notin> fst ` set pre" by auto
  from Cons.prems(3) a have down: "scale_capacity_down c = Inr (f c)" by simp
  let ?v = "max (allocated_of s k + 2) (f c)"
  let ?s' = "s\<lparr>agent_capacity := dict_set k ?v (agent_capacity s)\<rparr>"
  have cap': "agent_capacity ?s' = (pre @ [(k, ?v)]) @ items"
    using knot by (simp add: Cons.prems(1) a dict_set_middle)
  have d': "distinct (map fst ((pre @ [(k, ?v)]) @ items))"
    using Cons.prems(2) a by simp
  have rest: "\<forall>(k, c) \<in> set items. scale_capacity_down c = Inr (f c)"
    using Cons.prems(3) by simp
  have al: "\<And>p. allocated_of ?s' p = allocated_of s p" by (simp add: allocated_of_def)
  have "scale_down_loop (a # items) s = scale_down_loop items ?s'"
    using down by (simp add: a allocated_of_def)
  also have "\<dots> = (None, ?s'\<lparr>agent_capacity :=
      (pre @ [(k, ?v)]) @ map (\<lambda>(k, c). (k, max (allocated_of ?s' k + 2) (f c))) items\<rparr>)"
    by (rule Cons.IH[OF cap' d' rest])
  finally show ?case by (simp add: a al)
qed

lemma auto_scale_allocation: "agent_allocation (snd (auto_scale s)) = agent_allocation s"
proof -
  have up: "\<And>ks s. agent_allocation (snd (scale_up_loop ks s)) = agent_allocation s"
  proof -
    fix ks s show "agent_allocation (snd (scale_up_loop ks s)) = agent_allocation s"
      by (induction ks arbitrary: s) (auto split: option.splits sum.splits)
  qed
  have down: "\<And>items s. agent_allocation (snd (scale_down_loop items s)) = agent_allocation s"
  proof -
    fix items s show "agent_allocation (snd (scale_down_loop items s)) = agent_allocation s"
      by (induction items arbitrary: s) (auto simp: Let_def split: sum.splits)
  qed
  show ?thesis
    by (auto simp: auto_scale_def up down split: sum.splits bool.splits)
qed

section \<open>Utilization\<close>

lemma float_of_int_100: "float_of_int 100 = Inr (Fin 100)"
  using float_of_int_exact[of 100] by simp

lemma float_mul_int_100: "float_mul_int (Fin q) 100 = Inr (round_double (q * 100))"
  by (simp add: float_mul_int_def float_of_int_100)

text \<open>
  Claim C5, amended. \<open>calculate_utilization\<close> returns exactly 0.0 when the total capacity is
  0. Otherwise, when the sum of the allocated values is below \<open>2^1023\<close> times the total
  capacity in magnitude, it raises nothing and returns the float
  \<open>total_allocated / total_capacity * 100\<close>: the quotient rounded to a float \<open>q\<close>, then the
  product of \<open>q\<close> and 100 rounded (to an infinity when it is out of range).
\<close>

theorem utilization_value:
  "(get_total_capacity s = 0 \<longrightarrow> calculate_utilization s = Inr (Fin 0)) \<and>
   (get_total_capacity s \<noteq> 0 \<longrightarrow>
    \<bar>total_allocated s\<bar> < 2 ^ 1023 * \<bar>get_total_capacity s\<bar> \<longrightarrow>
      (\<exists>q. int_truediv (total_allocated s) (get_total_capacity s) = Inr (Fin q) \<and>
           round_double (of_int (total_allocated s) / of_int (get_total_capacity s)) = Fin q \<and>
           calculate_utilization s = Inr (float_mul (Fin q) (Fin 100))))"
proof (intro conjI impI)
  assume "get_total_capacity s = 0"
  then show "calculate_utilization s = Inr (Fin 0)"
    by (simp add: calculate_utilization_def)
next
  let ?a = "total_allocated s" and ?c = "get_total_capacity s"
  assume c: "?c \<noteq> 0" and b: "\<bar>?a\<bar> < 2 ^ 1023 * \<bar>?c\<bar>"
  have "(of_int \<bar>?a\<bar> :: rat) < of_int (2 ^ 1023 * \<bar>?c\<bar>)"
    using b by (simp only: of_int_less_iff)
  then have "\<bar>(of_int ?a :: rat)\<bar> < pow2 1023 * \<bar>of_int ?c\<bar>"
    by (simp add: pow2_def)
  moreover have "0 < \<bar>(of_int ?c :: rat)\<bar>" using c by simp
  ultimately have "\<bar>(of_int ?a :: rat)\<bar> / \<bar>of_int ?c\<bar> < pow2 1023"
    by (simp add: pos_divide_less_eq)
  then have "\<bar>(of_int ?a :: rat) / of_int ?c\<bar> < pow2 1023" by (simp only: abs_divide)
  from round_double_finite[OF this] obtain q where
    q: "round_double (of_int ?a / of_int ?c) = Fin q" by blast
  have d: "int_truediv ?a ?c = Inr (Fin q)" using c by (simp add: int_truediv_def q)
  have "calculate_utilization s = Inr (float_mul (Fin q) (Fin 100))"
    using c by (simp add: calculate_utilization_def d float_mul_int_100)
  with q d show "\<exists>q. int_truediv ?a ?c = Inr (Fin q) \<and>
           round_double (of_int ?a / of_int ?c) = Fin q \<and>
           calculate_utilization s = Inr (float_mul (Fin q) (Fin 100))" by blast
qed

text \<open>
  Claim C5 as stated has \<open>calculate_utilization\<close> return the quotient in every state. With
  capacity 1 and \<open>2^1024\<close> allocated (\<open>release_agent("research", -2**1024)\<close> produces it) the
  quotient is out of the range of a float, and the division raises \<open>OverflowError\<close>.
\<close>

theorem utilization_overflow_counterexample:
  "get_total_capacity overflow_state = 1 \<and>
   calculate_utilization overflow_state = Inl OverflowError"
proof -
  have a: "pow2 1024 \<le> \<bar>of_int (2 ^ 1024) :: rat\<bar>" "\<bar>of_int (2 ^ 1024) :: rat\<bar> < pow2 (1024 + 1)"
    by (simp_all add: pow2_def)
  have m: "round_half_even (of_int (2 ^ 1024) / pow2 (max 1024 (- 1022) - 52)) = 2 ^ 52"
    by (rule round_half_even_near) (simp add: pow2_def)
  have v: "pow2 1024 \<le> of_int (2 ^ 52) * pow2 (max 1024 (- 1022) - 52)"
    by (simp add: pow2_def)
  from round_double_eval[OF a m] v have "round_double (of_int (2 ^ 1024)) = PInf"
    by (simp only: if_True)
  then have "int_truediv (2 ^ 1024) 1 = Inl OverflowError"
    by (simp add: int_truediv_def)
  then show ?thesis
    by (simp add: overflow_state_def calculate_utilization_def get_total_capacity_def
        total_allocated_def)
qed

lemma round_double_5_21: "round_double (5 / 21) = Fin (4289142502257615 / 18014398509481984)"
proof -
  have a: "pow2 (- 3) \<le> \<bar>5 / 21 :: rat\<bar>" "\<bar>5 / 21 :: rat\<bar> < pow2 (- 3 + 1)"
    by (simp_all add: pow2_def)
  have m: "round_half_even (5 / 21 / pow2 (max (- 3) (- 1022) - 52)) = 8578285004515230"
    by (rule round_half_even_near) (simp add: pow2_def)
  have "pow2 0 < pow2 1024" by (intro pow2_strict_mono) simp
  then have big: "1 < pow2 1024" by (simp add: pow2_0)
  have v: "of_int 8578285004515230 * pow2 (max (- 3) (- 1022) - 52) =
      (4289142502257615 / 18014398509481984 :: rat)"
    by (simp add: pow2_def)
  from round_double_eval[OF a m] big show ?thesis unfolding v by simp
qed

lemma round_double_5_21_100:
  "round_double (4289142502257615 / 18014398509481984 * 100) =
     Fin (6701785159777523 / 281474976710656)"
proof -
  let ?x = "4289142502257615 / 18014398509481984 * 100 :: rat"
  have a: "pow2 4 \<le> \<bar>?x\<bar>" "\<bar>?x\<bar> < pow2 (4 + 1)"
    by (simp_all add: pow2_def)
  have m: "round_half_even (?x / pow2 (max 4 (- 1022) - 52)) = 6701785159777523"
    by (rule round_half_even_near) (simp add: pow2_def)
  have "pow2 5 < pow2 1024" by (intro pow2_strict_mono) simp
  then have big: "32 < pow2 1024" by (simp add: pow2_def)
  have v: "of_int 6701785159777523 * pow2 (max 4 (- 1022) - 52) =
      (6701785159777523 / 281474976710656 :: rat)"
    by (simp add: pow2_def)
  from round_double_eval[OF a m] big show ?thesis unfolding v by simp
qed

theorem utilization_value_witness:
  "get_total_capacity empty_state = 0 \<and> calculate_utilization empty_state = Inr (Fin 0) \<and>
   get_total_capacity scenario_t1 = 21 \<and> total_allocated scenario_t1 = 5 \<and>
   calculate_utilization scenario_t1 = Inr (Fin (6701785159777523 / 281474976710656))"
proof -
  have e: "get_total_capacity empty_state = 0"
    by (simp add: empty_state_def post_init_def get_total_capacity_def)
  have c: "get_total_capacity scenario_t1 = 21" and a: "total_allocated scenario_t1 = 5"
    by (simp_all add: scenario_t1_eq get_total_capacity_def total_allocated_def)
  have b: "\<bar>total_allocated scenario_t1\<bar> < 2 ^ 1023 * \<bar>get_total_capacity scenario_t1\<bar>"
    by (simp add: a c)
  from utilization_value[of empty_state] e
  have r0: "calculate_utilization empty_state = Inr (Fin 0)" by blast
  from utilization_value[of scenario_t1] b c obtain q where
    q: "round_double (of_int (total_allocated scenario_t1) / of_int (get_total_capacity scenario_t1)) = Fin q"
    and u: "calculate_utilization scenario_t1 = Inr (float_mul (Fin q) (Fin 100))"
    by auto
  have "round_double (of_int (total_allocated scenario_t1) / of_int (get_total_capacity scenario_t1)) =
      round_double (5 / 21)" by (simp add: a c)
  with q have "Fin q = Fin (4289142502257615 / 18014398509481984)"
    by (simp only: round_double_5_21)
  then have "calculate_utilization scenario_t1 = Inr (Fin (6701785159777523 / 281474976710656))"
    by (simp only: u float_mul.simps round_double_5_21_100)
  with e r0 c a show ?thesis by simp
qed

section \<open>Scaling up\<close>

lemma spec_scale_up_div:
  "spec_scale_up c = (if 0 \<le> c then (3 * c) div 2 else - ((3 * - c) div 2))"
proof -
  have x: "(of_int c :: rat) * (3 / 2) = of_int (3 * c) / 2" by simp
  have fl: "\<lfloor>(of_int (3 * c) :: rat) / 2\<rfloor> = (3 * c) div 2" by (rule floor_half)
  have "\<lceil>(of_int (3 * c) :: rat) / 2\<rceil> = - \<lfloor>(of_int (3 * - c) :: rat) / 2\<rfloor>"
    by (simp add: ceiling_def)
  also have "\<lfloor>(of_int (3 * - c) :: rat) / 2\<rfloor> = (3 * - c) div 2" by (rule floor_half)
  finally have ce: "\<lceil>(of_int (3 * c) :: rat) / 2\<rceil> = - ((3 * - c) div 2)" .
  have sgn: "(0 \<le> (of_int (3 * c) :: rat) / 2) = (0 \<le> c)" by simp
  show ?thesis by (simp only: spec_scale_up_def Let_def x sgn fl ce)
qed

lemma scale_capacity_up_spec:
  "3 * \<bar>c\<bar> < 2 ^ 53 \<Longrightarrow> scale_capacity_up c = Inr (spec_scale_up c)"
  by (simp only: scale_capacity_up_exact spec_scale_up_div)

lemma should_scale_up_iff:
  "calculate_utilization s = Inr u \<Longrightarrow>
   (should_scale_up s = Inr True) = (float_gt_int u 80 \<and> auto_scaling_ready s = Some True)"
  by (auto simp: should_scale_up_def split: option.splits)

lemma should_scale_down_eq:
  "calculate_utilization s = Inr u \<Longrightarrow> should_scale_down s = Inr (float_lt_int u 30)"
  by (simp add: should_scale_down_def)

text \<open>
  Claim C6, amended. In a state where every capacity \<open>c\<close> has \<open>3\<bar>c\<bar> < 2^53\<close> and the
  utilization is computed: the scale-up branch of \<open>auto_scale\<close> runs if and only if the
  utilization is greater than 80 and the auto-scaling flag is enabled. When it runs, every
  pool's capacity becomes the capacity times 1.5 truncated toward zero and nothing else of
  the state changes. When it does not run, \<open>auto_scale\<close> leaves the state alone (raising
  \<open>KeyError\<close> when the flag is absent and the utilization above 80) or scales down, which
  it does only below 30. \<open>auto_scale\<close> never changes an allocated value.
\<close>

theorem scale_up_policy:
  assumes wf: "dict_wf (agent_capacity s)"
    and small: "\<forall>(k, c) \<in> set (agent_capacity s). 3 * \<bar>c\<bar> < 2 ^ 53"
    and u: "calculate_utilization s = Inr u"
  shows "((should_scale_up s = Inr True) =
            (float_gt_int u 80 \<and> auto_scaling_ready s = Some True)) \<and>
         (float_gt_int u 80 \<and> auto_scaling_ready s = Some True \<longrightarrow>
            auto_scale s =
              (None, s\<lparr>agent_capacity :=
                 map (\<lambda>(k, c). (k, spec_scale_up c)) (agent_capacity s)\<rparr>)) \<and>
         (\<not> (float_gt_int u 80 \<and> auto_scaling_ready s = Some True) \<longrightarrow>
            auto_scale s = (Some KeyError, s) \<or> auto_scale s = (None, s) \<or>
            (float_lt_int u 30 \<and> auto_scale s = scale_down_loop (agent_capacity s) s)) \<and>
         agent_allocation (snd (auto_scale s)) = agent_allocation s"
proof (intro conjI impI)
  show "(should_scale_up s = Inr True) =
            (float_gt_int u 80 \<and> auto_scaling_ready s = Some True)"
    by (rule should_scale_up_iff[OF u])
next
  assume "float_gt_int u 80 \<and> auto_scaling_ready s = Some True"
  then have up: "should_scale_up s = Inr True" by (simp add: should_scale_up_iff[OF u])
  have a: "agent_capacity s = [] @ agent_capacity s" by simp
  have d: "distinct (map fst ([] @ agent_capacity s))" using wf by (simp add: dict_wf_def)
  have f: "\<forall>(k, c) \<in> set (agent_capacity s). scale_capacity_up c = Inr (spec_scale_up c)"
    using small by (auto simp: scale_capacity_up_spec)
  from scale_up_loop_closed[OF a d f] up
  show "auto_scale s =
      (None, s\<lparr>agent_capacity := map (\<lambda>(k, c). (k, spec_scale_up c)) (agent_capacity s)\<rparr>)"
    by (simp add: auto_scale_def)
next
  assume n: "\<not> (float_gt_int u 80 \<and> auto_scaling_ready s = Some True)"
  then have "should_scale_up s \<noteq> Inr True" by (simp add: should_scale_up_iff[OF u])
  then consider "should_scale_up s = Inl KeyError" | "should_scale_up s = Inr False"
    using u by (auto simp: should_scale_up_def split: option.splits if_splits)
  then show "auto_scale s = (Some KeyError, s) \<or> auto_scale s = (None, s) \<or>
            (float_lt_int u 30 \<and> auto_scale s = scale_down_loop (agent_capacity s) s)"
  proof cases
    case 1
    then show ?thesis by (simp add: auto_scale_def)
  next
    case 2
    then show ?thesis
      by (cases "float_lt_int u 30") (simp_all add: auto_scale_def should_scale_down_eq[OF u])
  qed
next
  show "agent_allocation (snd (auto_scale s)) = agent_allocation s"
    by (rule auto_scale_allocation)
qed

lemma round_double_9_10: "round_double (9 / 10) = Fin (8106479329266893 / 9007199254740992)"
proof -
  have a: "pow2 (- 1) \<le> \<bar>9 / 10 :: rat\<bar>" "\<bar>9 / 10 :: rat\<bar> < pow2 (- 1 + 1)"
    by (simp_all add: pow2_def)
  have m: "round_half_even (9 / 10 / pow2 (max (- 1) (- 1022) - 52)) = 8106479329266893"
    by (rule round_half_even_near) (simp add: pow2_def)
  have "pow2 0 < pow2 1024" by (intro pow2_strict_mono) simp
  then have big: "1 < pow2 1024" by (simp add: pow2_0)
  have v: "of_int 8106479329266893 * pow2 (max (- 1) (- 1022) - 52) =
      (8106479329266893 / 9007199254740992 :: rat)"
    by (simp add: pow2_def)
  from round_double_eval[OF a m] big show ?thesis unfolding v by simp
qed

lemma round_double_9_10_100:
  "round_double (8106479329266893 / 9007199254740992 * 100) = Fin 90"
proof -
  let ?x = "8106479329266893 / 9007199254740992 * 100 :: rat"
  have a: "pow2 6 \<le> \<bar>?x\<bar>" "\<bar>?x\<bar> < pow2 (6 + 1)"
    by (simp_all add: pow2_def)
  have m: "round_half_even (?x / pow2 (max 6 (- 1022) - 52)) = 6333186975989760"
    by (rule round_half_even_near) (simp add: pow2_def)
  have "pow2 7 < pow2 1024" by (intro pow2_strict_mono) simp
  then have big: "128 < pow2 1024" by (simp add: pow2_def)
  have v: "of_int 6333186975989760 * pow2 (max 6 (- 1022) - 52) = (90 :: rat)"
    by (simp add: pow2_def)
  from round_double_eval[OF a m] big show ?thesis unfolding v by simp
qed

lemma utilization_scale_up_state: "calculate_utilization scale_up_state = Inr (Fin 90)"
proof -
  have td: "int_truediv 9 10 = Inr (Fin (8106479329266893 / 9007199254740992))"
    using round_double_9_10 by (simp add: int_truediv_def)
  have "calculate_utilization scale_up_state =
      ebind (int_truediv 9 10) (\<lambda>q. float_mul_int q 100)"
    by (simp add: scale_up_state_def calculate_utilization_def get_total_capacity_def
        total_allocated_def)
  then show ?thesis
    by (simp only: td ebind.simps float_mul_int_100 round_double_9_10_100)
qed

theorem scale_up_policy_witness:
  "dict_wf (agent_capacity scale_up_state) \<and>
   agent_capacity scale_up_state = [(''research'', 10)] \<and>
   calculate_utilization scale_up_state = Inr (Fin 90) \<and>
   auto_scaling_ready scale_up_state = Some True \<and>
   auto_scale scale_up_state = (None, scale_up_state\<lparr>agent_capacity := [(''research'', 15)]\<rparr>)"
proof -
  have wf: "dict_wf (agent_capacity scale_up_state)"
    by (simp add: scale_up_state_def dict_wf_def)
  have cap: "agent_capacity scale_up_state = [(''research'', 10)]"
    by (simp add: scale_up_state_def)
  have small: "\<forall>(k, c) \<in> set (agent_capacity scale_up_state). 3 * \<bar>c\<bar> < 2 ^ 53"
    by (simp add: cap)
  have fl: "auto_scaling_ready scale_up_state = Some True" by (simp add: scale_up_state_def)
  have gt: "float_gt_int (Fin 90) 80" by simp
  have v: "spec_scale_up 10 = 15" by (simp add: spec_scale_up_div)
  from scale_up_policy[OF wf small utilization_scale_up_state] gt fl
  have "auto_scale scale_up_state =
      (None, scale_up_state\<lparr>agent_capacity :=
         map (\<lambda>(k, c). (k, spec_scale_up c)) (agent_capacity scale_up_state)\<rparr>)"
    by blast
  then have "auto_scale scale_up_state =
      (None, scale_up_state\<lparr>agent_capacity := [(''research'', 15)]\<rparr>)"
    by (simp add: cap v)
  with wf cap utilization_scale_up_state fl show ?thesis by simp
qed

text \<open>
  Claim C6 as stated multiplies by 1.5 exactly. The code multiplies floats: with capacity
  and allocation 3002399751580333 (utilization 100) the product
  \<open>4503599627370499.5\<close> is a tie between two floats and rounds to the even one, so the new
  capacity is 4503599627370500, while the capacity times 1.5 truncated is
  4503599627370499.
\<close>

theorem scale_up_rounding_counterexample:
  "calculate_utilization large_state = Inr (Fin 100) \<and>
   auto_scaling_ready large_state = Some True \<and>
   auto_scale large_state =
     (None, large_state\<lparr>agent_capacity := [(''research'', 4503599627370500)]\<rparr>) \<and>
   spec_scale_up 3002399751580333 = 4503599627370499"
proof -
  let ?c = "3002399751580333 :: int"
  have one: "round_double 1 = Fin 1" using round_double_of_int[of 1] by simp
  have hundred: "round_double 100 = Fin 100" using round_double_of_int[of 100] by simp
  have "int_truediv ?c ?c = Inr (Fin 1)" by (simp add: int_truediv_def one)
  then have u: "calculate_utilization large_state = Inr (Fin 100)"
    by (simp add: large_state_def calculate_utilization_def get_total_capacity_def
        total_allocated_def float_mul_int_100 hundred)
  have fl: "auto_scaling_ready large_state = Some True" by (simp add: large_state_def)
  have up: "should_scale_up large_state = Inr True"
    by (simp add: should_scale_up_iff[OF u] fl)
  let ?x = "of_int ?c * (3 / 2) :: rat"
  have a: "pow2 52 \<le> \<bar>?x\<bar>" "\<bar>?x\<bar> < pow2 (52 + 1)" by (simp_all add: pow2_def)
  have m: "round_half_even (?x / pow2 (max 52 (- 1022) - 52)) = 4503599627370500"
    by (rule round_half_even_tie_up) (simp_all add: pow2_def)
  have "pow2 53 < pow2 1024" by (intro pow2_strict_mono) simp
  then have big: "9007199254740992 < pow2 1024" by (simp add: pow2_def)
  have v: "of_int 4503599627370500 * pow2 (max 52 (- 1022) - 52) = (4503599627370500 :: rat)"
    by (simp add: pow2_def)
  from round_double_eval[OF a m] big have rd: "round_double ?x = Fin 4503599627370500"
    unfolding v by simp
  have fc: "float_of_int ?c = Inr (Fin (of_int ?c))" by (rule float_of_int_exact) simp
  have "scale_capacity_up ?c = py_int (Fin 4503599627370500)"
    by (simp only: scale_capacity_up_def int_mul_float_def fc lit_1_5_eq ebind.simps
        float_mul.simps rd)
  then have sc: "scale_capacity_up ?c = Inr 4503599627370500" by simp
  have "auto_scale large_state =
     (None, large_state\<lparr>agent_capacity := [(''research'', 4503599627370500)]\<rparr>)"
    using up sc by (simp add: auto_scale_def) (simp add: large_state_def sc)
  moreover have "spec_scale_up ?c = 4503599627370499" by (simp add: spec_scale_up_div)
  ultimately show ?thesis using u fl by simp
qed

section \<open>Scaling down\<close>

lemma spec_scale_down_div: "spec_scale_down a c = max (a + 2) ((7 * c) div 10)"
proof -
  have "(of_int c :: rat) * (7 / 10) = of_int (7 * c) / of_int 10" by simp
  then have "\<lfloor>(of_int c :: rat) * (7 / 10)\<rfloor> = (7 * c) div 10"
    by (simp only: floor_divide_of_int_eq)
  then show ?thesis by (simp only: spec_scale_down_def)
qed

lemma lt_30_not_gt_80: "float_lt_int u 30 \<Longrightarrow> \<not> float_gt_int u 80"
  by (cases u) auto

lemma map_of_map_keyed:
  "map_of (map (\<lambda>(k, c). (k, h k c)) xs) k = map_option (h k) (map_of xs k)"
  by (induction xs) auto

text \<open>
  Claim C7, amended. In a state where every capacity is below \<open>2^1023\<close> in magnitude, the
  utilization is computed and the scale-up branch does not run: \<open>auto_scale\<close> scales down
  if and only if the utilization is less than 30, whatever the auto-scaling flag. It then
  sets every pool's capacity to \<open>max(allocated + 2, int(capacity * 0.7))\<close>, the product
  being that of floats, and changes nothing else; afterwards no pool of the table has
  more allocated than its capacity. For a capacity from 0 to \<open>2^49\<close> the new capacity is
  \<open>max(allocated + 2, floor(capacity * 0.7))\<close> or one less. Otherwise the state is left
  as it is.
\<close>

theorem scale_down_policy:
  assumes wf: "dict_wf (agent_capacity s)"
    and range: "\<forall>(k, c) \<in> set (agent_capacity s). \<bar>c\<bar> < 2 ^ 1023"
    and u: "calculate_utilization s = Inr u"
    and noup: "should_scale_up s \<noteq> Inr True"
  shows "should_scale_down s = Inr (float_lt_int u 30) \<and>
         (float_lt_int u 30 \<longrightarrow>
            (\<forall>(k, c) \<in> set (agent_capacity s). \<exists>n. scale_capacity_down c = Inr n) \<and>
            auto_scale s =
              (None, s\<lparr>agent_capacity :=
                 map (\<lambda>(k, c). (k, max (allocated_of s k + 2) (projr (scale_capacity_down c))))
                   (agent_capacity s)\<rparr>) \<and>
            (\<forall>(k, c) \<in> set (agent_capacity s).
               allocated_of (snd (auto_scale s)) k \<le> capacity_of (snd (auto_scale s)) k)) \<and>
         (\<not> float_lt_int u 30 \<longrightarrow> snd (auto_scale s) = s) \<and>
         (\<forall>a c. 0 \<le> c \<and> c \<le> 2 ^ 49 \<longrightarrow>
            spec_scale_down a c - 1 \<le> max (a + 2) (projr (scale_capacity_down c)) \<and>
            max (a + 2) (projr (scale_capacity_down c)) \<le> spec_scale_down a c)"
proof (intro conjI impI allI)
  show "should_scale_down s = Inr (float_lt_int u 30)"
    by (rule should_scale_down_eq[OF u])
next
  assume lt: "float_lt_int u 30"
  show fin: "\<forall>(k, c) \<in> set (agent_capacity s). \<exists>n. scale_capacity_down c = Inr n"
  proof (clarify)
    fix k c assume "(k, c) \<in> set (agent_capacity s)"
    with range have "\<bar>c\<bar> < 2 ^ 1023" by blast
    then show "\<exists>n. scale_capacity_down c = Inr n" by (rule scale_capacity_down_finite)
  qed
  from lt have "\<not> float_gt_int u 80" by (rule lt_30_not_gt_80)
  then have up: "should_scale_up s = Inr False" by (simp add: should_scale_up_def u)
  have a: "agent_capacity s = [] @ agent_capacity s" by simp
  have d: "distinct (map fst ([] @ agent_capacity s))" using wf by (simp add: dict_wf_def)
  have f: "\<forall>(k, c) \<in> set (agent_capacity s).
      scale_capacity_down c = Inr (projr (scale_capacity_down c))"
    using fin by fastforce
  from scale_down_loop_closed[OF a d f] up lt
  show eq: "auto_scale s =
      (None, s\<lparr>agent_capacity :=
         map (\<lambda>(k, c). (k, max (allocated_of s k + 2) (projr (scale_capacity_down c))))
           (agent_capacity s)\<rparr>)"
    by (simp add: auto_scale_def should_scale_down_eq[OF u])
  show "\<forall>(k, c) \<in> set (agent_capacity s).
      allocated_of (snd (auto_scale s)) k \<le> capacity_of (snd (auto_scale s)) k"
  proof (clarify)
    fix k c assume kc: "(k, c) \<in> set (agent_capacity s)"
    with wf have "map_of (agent_capacity s) k = Some c" by (simp add: dict_wf_def)
    then have "capacity_of (snd (auto_scale s)) k =
        max (allocated_of s k + 2) (projr (scale_capacity_down c))"
      by (simp add: eq capacity_of_def dict_get_def map_of_map_keyed)
    moreover have "allocated_of (snd (auto_scale s)) k = allocated_of s k"
      by (simp add: allocated_of_def auto_scale_allocation)
    ultimately show "allocated_of (snd (auto_scale s)) k \<le> capacity_of (snd (auto_scale s)) k"
      by simp
  qed
next
  assume nlt: "\<not> float_lt_int u 30"
  from noup consider e where "should_scale_up s = Inl e" | "should_scale_up s = Inr False"
    by (cases "should_scale_up s") auto
  then show "snd (auto_scale s) = s"
  proof cases
    case 1
    then show ?thesis by (simp add: auto_scale_def)
  next
    case 2
    with nlt show ?thesis by (simp add: auto_scale_def should_scale_down_eq[OF u])
  qed
next
  fix a c :: int
  assume c: "0 \<le> c \<and> c \<le> 2 ^ 49"
  then obtain n where n: "scale_capacity_down c = Inr n"
    "(7 * c) div 10 - 1 \<le> n" "n \<le> (7 * c) div 10"
    using scale_capacity_down_bounds[of c] by blast
  then show "spec_scale_down a c - 1 \<le> max (a + 2) (projr (scale_capacity_down c))"
    by (simp add: spec_scale_down_div)
  from n show "max (a + 2) (projr (scale_capacity_down c)) \<le> spec_scale_down a c"
    by (simp add: spec_scale_down_div)
qed

lemma round_double_1_20: "round_double (1 / 20) = Fin (3602879701896397 / 72057594037927936)"
proof -
  have a: "pow2 (- 5) \<le> \<bar>1 / 20 :: rat\<bar>" "\<bar>1 / 20 :: rat\<bar> < pow2 (- 5 + 1)"
    by (simp_all add: pow2_def)
  have m: "round_half_even (1 / 20 / pow2 (max (- 5) (- 1022) - 52)) = 7205759403792794"
    by (rule round_half_even_near) (simp add: pow2_def)
  have "pow2 0 < pow2 1024" by (intro pow2_strict_mono) simp
  then have big: "1 < pow2 1024" by (simp add: pow2_0)
  have v: "of_int 7205759403792794 * pow2 (max (- 5) (- 1022) - 52) =
      (3602879701896397 / 72057594037927936 :: rat)"
    by (simp add: pow2_def)
  from round_double_eval[OF a m] big show ?thesis unfolding v by simp
qed

lemma round_double_1_20_100:
  "round_double (3602879701896397 / 72057594037927936 * 100) = Fin 5"
proof -
  let ?x = "3602879701896397 / 72057594037927936 * 100 :: rat"
  have a: "pow2 2 \<le> \<bar>?x\<bar>" "\<bar>?x\<bar> < pow2 (2 + 1)"
    by (simp_all add: pow2_def)
  have m: "round_half_even (?x / pow2 (max 2 (- 1022) - 52)) = 5629499534213120"
    by (rule round_half_even_near) (simp add: pow2_def)
  have "pow2 3 < pow2 1024" by (intro pow2_strict_mono) simp
  then have big: "8 < pow2 1024" by (simp add: pow2_def)
  have v: "of_int 5629499534213120 * pow2 (max 2 (- 1022) - 52) = (5 :: rat)"
    by (simp add: pow2_def)
  from round_double_eval[OF a m] big show ?thesis unfolding v by simp
qed

lemma utilization_scale_down_state: "calculate_utilization scale_down_state = Inr (Fin 5)"
proof -
  have td: "int_truediv 1 20 = Inr (Fin (3602879701896397 / 72057594037927936))"
    using round_double_1_20 by (simp add: int_truediv_def)
  have "calculate_utilization scale_down_state =
      ebind (int_truediv 1 20) (\<lambda>q. float_mul_int q 100)"
    by (simp add: scale_down_state_def calculate_utilization_def get_total_capacity_def
        total_allocated_def)
  then show ?thesis
    by (simp only: td ebind.simps float_mul_int_100 round_double_1_20_100)
qed

theorem scale_down_policy_witness:
  "dict_wf (agent_capacity scale_down_state) \<and>
   agent_capacity scale_down_state = [(''research'', 20)] \<and>
   auto_scaling_ready scale_down_state = Some False \<and>
   calculate_utilization scale_down_state = Inr (Fin 5) \<and>
   should_scale_up scale_down_state = Inr False \<and>
   auto_scale scale_down_state =
     (None, scale_down_state\<lparr>agent_capacity := [(''research'', 14)]\<rparr>) \<and>
   spec_scale_down 1 20 = 14"
proof -
  have wf: "dict_wf (agent_capacity scale_down_state)"
    by (simp add: scale_down_state_def dict_wf_def)
  have cap: "agent_capacity scale_down_state = [(''research'', 20)]"
    by (simp add: scale_down_state_def)
  have fl: "auto_scaling_ready scale_down_state = Some False"
    by (simp add: scale_down_state_def)
  have range: "\<forall>(k, c) \<in> set (agent_capacity scale_down_state). \<bar>c\<bar> < 2 ^ 1023"
    by (simp add: cap)
  have up: "should_scale_up scale_down_state = Inr False"
    by (simp add: should_scale_up_def utilization_scale_down_state)
  then have noup: "should_scale_up scale_down_state \<noteq> Inr True" by simp
  have lt: "float_lt_int (Fin 5) 30" by simp
  have al: "allocated_of scale_down_state ''research'' = 1"
    by (simp add: scale_down_state_def allocated_of_def dict_get_def)
  from scale_down_policy[OF wf range utilization_scale_down_state noup] lt
  have "auto_scale scale_down_state =
      (None, scale_down_state\<lparr>agent_capacity :=
         map (\<lambda>(k, c). (k, max (allocated_of scale_down_state k + 2)
                              (projr (scale_capacity_down c))))
           (agent_capacity scale_down_state)\<rparr>)"
    by blast
  then have "auto_scale scale_down_state =
      (None, scale_down_state\<lparr>agent_capacity := [(''research'', 14)]\<rparr>)"
    by (simp add: cap al scale_capacity_down_20)
  moreover have "spec_scale_down 1 20 = 14" by (simp add: spec_scale_down_div)
  ultimately show ?thesis using wf cap fl utilization_scale_down_state up by simp
qed

text \<open>
  Claim C7 as stated takes the floor of the exact product. The float \<open>0.7\<close> is below
  7/10, and 90 times it rounds to the float below 63: with capacity 90 and nothing
  allocated \<open>auto_scale\<close> sets the capacity to 62, where
  \<open>max(0 + 2, floor(90 * 0.7))\<close> is 63.
\<close>

theorem scale_down_rounding_counterexample:
  "calculate_utilization ninety_state = Inr (Fin 0) \<and>
   should_scale_up ninety_state = Inr False \<and>
   auto_scale ninety_state = (None, ninety_state\<lparr>agent_capacity := [(''research'', 62)]\<rparr>) \<and>
   spec_scale_down 0 90 = 63"
proof -
  have "int_truediv 0 90 = Inr (Fin 0)" by (simp add: int_truediv_def round_double_0)
  then have u: "calculate_utilization ninety_state = Inr (Fin 0)"
    by (simp add: ninety_state_def calculate_utilization_def get_total_capacity_def
        total_allocated_def float_mul_int_100 round_double_0)
  have up: "should_scale_up ninety_state = Inr False"
    by (simp add: should_scale_up_def u)
  have down: "should_scale_down ninety_state = Inr True"
    by (simp add: should_scale_down_def u)
  have "auto_scale ninety_state =
      (None, ninety_state\<lparr>agent_capacity := [(''research'', 62)]\<rparr>)"
    by (simp add: auto_scale_def up down)
      (simp add: ninety_state_def scale_capacity_down_90 dict_get_def)
  moreover have "spec_scale_down 0 90 = 63" by (simp add: spec_scale_down_div)
  ultimately show ?thesis using u up by simp
qed

end
